theory Spec2Isabelle
  imports Complex_Main
begin

section \<open>Band disentanglement of pybinding (\<open>pybinding/results.py\<close>)\<close>

text \<open>
  The development embeds the classes \<open>Disentangle\<close> and \<open>Wavefunction\<close> of
  \<open>pybinding/results.py\<close>. Floating-point numbers are idealised as \<^typ>\<open>real\<close> and
  \<^typ>\<open>complex\<close>; the items of a data array may also be NaN, which is \<^const>\<open>None\<close>.
  Every \<open>assert\<close> and every exception numpy raises on the modelled paths is a branch
  returning \<open>Inl\<close>.
\<close>

subsection \<open>Arrays and errors\<close>

datatype error = AssertionError | ValueError | IndexError

text \<open>A numpy array: its shape and its items in row-major (C) order.\<close>

record 'a ndarray =
  shape :: "nat list"
  items :: "'a list"

definition wf_ndarray :: "'a ndarray \<Rightarrow> bool" where
  "wf_ndarray a \<longleftrightarrow> length (items a) = prod_list (shape a)"

text \<open>\<open>a[i, j, k]\<close> of an array with three axes.\<close>

definition at3 :: "'a ndarray \<Rightarrow> nat \<Rightarrow> nat \<Rightarrow> nat \<Rightarrow> 'a" where
  "at3 a i j k = items a ! ((i * (shape a ! 1) + j) * (shape a ! 2) + k)"

text \<open>\<open>a[i]\<close> of an array with three axes, as the list of its rows.\<close>

definition slice3 :: "'a ndarray \<Rightarrow> nat \<Rightarrow> 'a list list" where
  "slice3 a i = map (\<lambda>j. map (\<lambda>k. at3 a i j k) [0..<shape a ! 2]) [0..<shape a ! 1]"

text \<open>\<open>M[idx, :]\<close>: the rows of \<open>M\<close> picked by an index array; numpy raises
  \<open>IndexError\<close> on an index out of bounds.\<close>

definition take_rows :: "'a list list \<Rightarrow> nat list \<Rightarrow> error + 'a list list" where
  "take_rows M idx =
     (if \<forall>i\<in>set idx. i < length M then Inr (map (\<lambda>i. M ! i) idx) else Inl IndexError)"

text \<open>\<open>np.max\<close> of an integer array, given by its items: a \<open>ValueError\<close> on a zero-size
  array.\<close>

definition np_max :: "nat list \<Rightarrow> error + nat" where
  "np_max xs = (if xs = [] then Inl ValueError else Inr (Max (set xs)))"

text \<open>\<open>np.argmax\<close> of a list: the first index of the maximum, \<open>ValueError\<close> on an empty
  sequence.\<close>

fun argmax :: "real list \<Rightarrow> nat" where
  "argmax [] = 0"
| "argmax [x] = 0"
| "argmax (x # y # ys) = (let j = argmax (y # ys) in if x < (y # ys) ! j then Suc j else 0)"

definition np_argmax :: "real list \<Rightarrow> error + nat" where
  "np_argmax xs = (if xs = [] then Inl ValueError else Inr (argmax xs))"

text \<open>\<open>list.pop(i)\<close>: the list without its item at \<open>i\<close>.\<close>

definition pop :: "'a list \<Rightarrow> nat \<Rightarrow> 'a list" where
  "pop xs i = take i xs @ drop (Suc i) xs"

definition square :: "'a list list \<Rightarrow> bool" where
  "square M \<longleftrightarrow> (\<forall>r\<in>set M. length r = length M)"

subsection \<open>The external assignment solver\<close>

text \<open>
  \<open>scipy.optimize.linear_sum_assignment\<close> is not part of the repository. It is a
  parameter of the model: a function from the cost matrix to the pair
  \<open>(row_ind, col_ind)\<close>. Its documented contract for a square cost matrix, the only one
  \<open>_linear_sum_scipy\<close> relies on: \<open>row_ind\<close> is \<open>0..n-1\<close> and \<open>col_ind\<close> is an
  assignment (a permutation of \<open>0..n-1\<close>) of minimal total cost.
\<close>

type_synonym lsa = "real list list \<Rightarrow> nat list \<times> nat list"

definition is_assignment :: "nat \<Rightarrow> nat list \<Rightarrow> bool" where
  "is_assignment n p \<longleftrightarrow> distinct p \<and> set p = {0..<n}"

definition matched_weight :: "real list list \<Rightarrow> nat list \<Rightarrow> real" where
  "matched_weight M p = (\<Sum>i\<leftarrow>[0..<length p]. M ! i ! (p ! i))"

definition lsa_contract :: "lsa \<Rightarrow> bool" where
  "lsa_contract solver \<longleftrightarrow>
     (\<forall>C. square C \<longrightarrow>
        fst (solver C) = [0..<length C] \<and>
        is_assignment (length C) (snd (solver C)) \<and>
        (\<forall>p. is_assignment (length C) p \<longrightarrow>
           matched_weight C (snd (solver C)) \<le> matched_weight C p))"

text \<open>A reference solver that meets the contract: the first assignment of least cost
  in an enumeration of all of them.\<close>

fun insert_everywhere :: "'a \<Rightarrow> 'a list \<Rightarrow> 'a list list" where
  "insert_everywhere x [] = [[x]]"
| "insert_everywhere x (y # ys) = (x # y # ys) # map ((#) y) (insert_everywhere x ys)"

fun perms :: "'a list \<Rightarrow> 'a list list" where
  "perms [] = [[]]"
| "perms (x # xs) = concat (map (insert_everywhere x) (perms xs))"

definition lsa_exhaustive :: lsa where
  "lsa_exhaustive C =
     ([0..<length C], arg_min_list (matched_weight C) (perms [0..<length C]))"

subsection \<open>The class \<open>Disentangle\<close>\<close>

text \<open>The fields of an instance. \<open>__init__\<close> sets \<open>threshold\<close> from the band count and
  \<open>_routine\<close> to 1; both are attributes a caller may overwrite, so they are free fields
  here. The cache \<open>_disentangle_matrix\<close> holds the value of \<open>_calc_disentangle_matrix\<close> and
  is left out.\<close>

record Disentangle =
  overlap_matrix :: "real ndarray"
  threshold :: real
  routine :: int

text \<open>\<open>_linear_sum_approx\<close>: the loop over the rows \<open>i_b\<close>, with the list \<open>index_all\<close>
  of the columns not chosen yet.\<close>

fun linear_sum_approx_loop ::
  "real \<Rightarrow> real list list \<Rightarrow> nat list \<Rightarrow> error + nat list \<times> bool list" where
  "linear_sum_approx_loop t [] index_all = Inr ([], [])"
| "linear_sum_approx_loop t (row # rows) index_all =
     (case np_argmax (map (\<lambda>i. row ! i) index_all) of
        Inl e \<Rightarrow> Inl e
      | Inr i_max \<Rightarrow>
          (let i_new = index_all ! i_max in
           case linear_sum_approx_loop t rows (pop index_all i_max) of
             Inl e \<Rightarrow> Inl e
           | Inr (ind, keep) \<Rightarrow> Inr (i_new # ind, (t < row ! i_new) # keep)))"

definition linear_sum_approx :: "real \<Rightarrow> real list list \<Rightarrow> error + nat list \<times> bool list" where
  "linear_sum_approx t M =
     (if \<not> square M then Inl AssertionError
      else linear_sum_approx_loop t M [0..<length M])"

text \<open>\<open>_linear_sum_scipy\<close>: the solver runs on the negated matrix; \<open>orig\<close> must be
  \<open>arange\<close>; \<open>matrix[orig, perm]\<close> raises \<open>IndexError\<close> when the two index arrays do
  not pair up or an index is out of bounds.\<close>

definition linear_sum_scipy ::
  "lsa \<Rightarrow> real \<Rightarrow> real list list \<Rightarrow> error + nat list \<times> bool list" where
  "linear_sum_scipy solver t M =
     (case solver (map (map uminus) M) of
        (orig, perm) \<Rightarrow>
          if orig \<noteq> [0..<length M] then Inl AssertionError
          else if length perm \<noteq> length orig \<or>
                  \<not> (\<forall>(i, j)\<in>set (zip orig perm). j < length (M ! i))
          then Inl IndexError
          else Inr (perm, map (\<lambda>(i, j). t < M ! i ! j) (zip orig perm)))"

text \<open>The choice of \<open>func\<close> by \<open>self.routine\<close>.\<close>

definition select_routine ::
  "lsa \<Rightarrow> Disentangle \<Rightarrow> error + (real list list \<Rightarrow> error + nat list \<times> bool list)" where
  "select_routine solver d =
     (if routine d = 0 then Inr (linear_sum_approx (threshold d))
      else if routine d = 1 then Inr (linear_sum_scipy solver (threshold d))
      else Inl AssertionError)"

text \<open>The first loop of \<open>_calc_disentangle_matrix\<close> for \<open>i_k \<ge> 1\<close>: \<open>prev\<close> is
  \<open>ind[i_k - 1]\<close>, the list holds the slices \<open>overlap_matrix[i_k - 1]\<close> still to come.\<close>

fun ind_keep_loop ::
  "(real list list \<Rightarrow> error + nat list \<times> bool list) \<Rightarrow> real list list list \<Rightarrow> nat list \<Rightarrow>
   error + nat list list \<times> bool list list" where
  "ind_keep_loop func [] prev = Inr ([], [])"
| "ind_keep_loop func (S # Ss) prev =
     (case take_rows S prev of
        Inl e \<Rightarrow> Inl e
      | Inr M \<Rightarrow>
          (case func M of
             Inl e \<Rightarrow> Inl e
           | Inr (ind, keep) \<Rightarrow>
               (case ind_keep_loop func Ss ind of
                  Inl e \<Rightarrow> Inl e
                | Inr (inds, keeps) \<Rightarrow> Inr (ind # inds, keep # keeps))))"

text \<open>The asserts and the first loop of \<open>_calc_disentangle_matrix\<close>: the arrays \<open>ind\<close>
  (IndexMap) and \<open>keep\<close> (KeepMask), one row per k-point.\<close>

definition calc_ind_keep ::
  "lsa \<Rightarrow> Disentangle \<Rightarrow> error + nat list list \<times> bool list list" where
  "calc_ind_keep solver d =
     (let om = overlap_matrix d in
      if length (shape om) \<noteq> 3 then Inl AssertionError
      else
        let n_k = shape om ! 0; n_b = shape om ! 1; n_b_2 = shape om ! 2 in
        if n_b \<noteq> n_b_2 then Inl AssertionError
        else
          case select_routine solver d of
            Inl e \<Rightarrow> Inl e
          | Inr func \<Rightarrow>
              (case ind_keep_loop func (map (slice3 om) [0..<n_k]) [0..<n_b] of
                 Inl e \<Rightarrow> Inl e
               | Inr (inds, keeps) \<Rightarrow>
                   Inr ([0..<n_b] # inds, replicate n_b True # keeps)))"

text \<open>The inner loop over \<open>i_b\<close> of the second loop: a track that is not kept gets the
  slot one past the maximum in use.\<close>

definition retire_step :: "real \<Rightarrow> bool list \<Rightarrow> nat \<Rightarrow> nat list \<Rightarrow> nat list" where
  "retire_step t keep_row i_b tmp_w_i =
     (if \<not> keep_row ! i_b \<and> \<not> t = 0 then tmp_w_i[i_b := Max (set tmp_w_i) + 1]
      else tmp_w_i)"

definition retire_row :: "real \<Rightarrow> bool list \<Rightarrow> nat list \<Rightarrow> nat list" where
  "retire_row t keep_row tmp_w_i =
     fold (retire_step t keep_row) [0..<length tmp_w_i] tmp_w_i"

text \<open>The second loop over \<open>i_k\<close>: the rows of \<open>working_indices\<close>.\<close>

fun working_indices_loop :: "real \<Rightarrow> bool list list \<Rightarrow> nat list \<Rightarrow> nat list list" where
  "working_indices_loop t [] tmp_w_i = []"
| "working_indices_loop t (keep_row # keeps) tmp_w_i =
     (let tmp' = retire_row t keep_row tmp_w_i in tmp' # working_indices_loop t keeps tmp')"

text \<open>\<open>_calc_disentangle_matrix\<close>; \<open>disentangle_matrix\<close> caches its result.\<close>

definition calc_disentangle_matrix ::
  "lsa \<Rightarrow> Disentangle \<Rightarrow> error + nat list list \<times> nat list list" where
  "calc_disentangle_matrix solver d =
     (case calc_ind_keep solver d of
        Inl e \<Rightarrow> Inl e
      | Inr (ind, keep) \<Rightarrow>
          (let n_b = shape (overlap_matrix d) ! 1;
               working_indices = working_indices_loop (threshold d) keep [0..<n_b] in
           if threshold d = 0 then
             (case np_max (concat working_indices) of
                Inl e \<Rightarrow> Inl e
              | Inr m \<Rightarrow>
                  if m + 1 = n_b then Inr (ind, working_indices) else Inl AssertionError)
           else Inr (ind, working_indices)))"

text \<open>The data array handed to \<open>_apply_disentanglement\<close>, by its dtype. An item of a
  \<open>float64\<close> array is a real number or NaN (\<^const>\<open>None\<close>); an item of a \<open>complex128\<close>
  array is a complex number. The outer two lists are the axes \<open>k\<close> and \<open>band\<close>; the
  innermost list is the block of the trailing axes, flattened (one item when the array has
  two axes). Arrays of other dtypes are outside the model.\<close>

datatype data_array =
  Float64 "real option list list list"
| Complex128 "complex list list list"

text \<open>The cast made by an assignment into the \<open>float64\<close> array \<open>out_values\<close>
  (\<open>np.full(size, np.nan)\<close>): a complex item keeps its real part only.\<close>

fun astype_float64 :: "data_array \<Rightarrow> real option list list list" where
  "astype_float64 (Float64 xs) = xs"
| "astype_float64 (Complex128 zs) = map (map (map (\<lambda>z. Some (Re z)))) zs"

text \<open>\<open>out_values[i_k, working_indices[i_k]] = matrix[i_k, ind[i_k]]\<close> on one row: the
  writes happen in order, a later write to the same slot wins.\<close>

definition scatter_row :: "'a list \<Rightarrow> nat list \<Rightarrow> 'a list \<Rightarrow> 'a list" where
  "scatter_row out ws vals = fold (\<lambda>(w, v) row. row[w := v]) (zip ws vals) out"

text \<open>\<open>_apply_disentanglement\<close> (\<open>__call__\<close>). The result is a \<open>float64\<close> array: every
  slot starts as a block of NaN, and the blocks of the data are cast on assignment.\<close>

definition apply_disentanglement ::
  "lsa \<Rightarrow> Disentangle \<Rightarrow> data_array \<Rightarrow> error + real option list list list" where
  "apply_disentanglement solver d matrix =
     (case calc_disentangle_matrix solver d of
        Inl e \<Rightarrow> Inl e
      | Inr (ind, working_indices) \<Rightarrow>
          (let vals = astype_float64 matrix;
               n_k = length working_indices; n_b = shape (overlap_matrix d) ! 1 in
           if \<not> (length vals = n_k \<and> (\<forall>r\<in>set vals. length r = n_b))
           then Inl AssertionError
           else
             case np_max (concat working_indices) of
               Inl e \<Rightarrow> Inl e
             | Inr m \<Rightarrow>
                 (let nan_block = replicate (length (vals ! 0 ! 0)) None in
                  Inr (map (\<lambda>i_k. scatter_row (replicate (m + 1) nan_block)
                                     (working_indices ! i_k)
                                     (map (\<lambda>j. vals ! i_k ! j) (ind ! i_k)))
                         [0..<n_k]))))"

subsection \<open>The class \<open>Wavefunction\<close>\<close>

text \<open>\<open>_calc_overlap_matrix\<close>: \<open>|wavefunction[i_k] @ wavefunction[i_k + 1].T.conj()|\<close>
  for \<open>i_k\<close> in \<open>range(n_k - 1)\<close>.\<close>

definition overlap_entry :: "complex ndarray \<Rightarrow> nat \<Rightarrow> nat \<Rightarrow> nat \<Rightarrow> real" where
  "overlap_entry w i a b =
     cmod (\<Sum>c\<leftarrow>[0..<shape w ! 2]. at3 w i a c * cnj (at3 w (i + 1) b c))"

definition calc_overlap_matrix :: "complex ndarray \<Rightarrow> error + real ndarray" where
  "calc_overlap_matrix w =
     (if length (shape w) \<noteq> 3 then Inl AssertionError
      else
        let n_k = shape w ! 0; n_b = shape w ! 1 in
        if \<not> 1 < n_k then Inl AssertionError
        else Inr \<lparr>shape = [n_k - 1, n_b, n_b],
                  items = concat (map (\<lambda>i. concat (map (\<lambda>a. map (\<lambda>b. overlap_entry w i a b)
                                    [0..<n_b]) [0..<n_b])) [0..<n_k - 1])\<rparr>)"

subsection \<open>A sample path\<close>

text \<open>Two bands, three k-points: the bands keep their order at the first step and
  cross at the second.\<close>

definition sample_overlap :: "real ndarray" where
  "sample_overlap =
     \<lparr>shape = [2, 2, 2], items = [0.9, 0.1, 0.1, 0.9, 0.05, 0.95, 0.95, 0.05]\<rparr>"

definition sample_engine :: "real \<Rightarrow> int \<Rightarrow> Disentangle" where
  "sample_engine t r = \<lparr>overlap_matrix = sample_overlap, threshold = t, routine = r\<rparr>"

text \<open>Two bands, three k-points: the bands cross at the first step and keep their new
  order at the second.\<close>

definition crossing_overlap :: "real ndarray" where
  "crossing_overlap =
     \<lparr>shape = [2, 2, 2], items = [0.1, 0.9, 0.9, 0.1, 0.9, 0.1, 0.1, 0.9]\<rparr>"

definition crossing_engine :: "real \<Rightarrow> int \<Rightarrow> Disentangle" where
  "crossing_engine t r = \<lparr>overlap_matrix = crossing_overlap, threshold = t, routine = r\<rparr>"

section \<open>Properties\<close>

subsection \<open>Lists, assignments and the reference solver\<close>

lemma argmax_less: "xs \<noteq> [] \<Longrightarrow> argmax xs < length xs"
  by (induction xs rule: argmax.induct) (auto simp: Let_def)

lemma set_pop_subset: "set (pop xs i) \<subseteq> set xs"
  unfolding pop_def by (auto dest: in_set_takeD in_set_dropD)

lemma length_pop: "i < length xs \<Longrightarrow> length (pop xs i) = length xs - 1"
  unfolding pop_def by auto

lemma pop_split: "i < length xs \<Longrightarrow> xs = take i xs @ xs ! i # drop (Suc i) xs"
  by (simp add: id_take_nth_drop)

lemma distinct_pop: "distinct xs \<Longrightarrow> i < length xs \<Longrightarrow> distinct (pop xs i) \<and> xs ! i \<notin> set (pop xs i)"
proof -
  assume d: "distinct xs" and i: "i < length xs"
  have "distinct (take i xs @ xs ! i # drop (Suc i) xs)"
    using d pop_split [OF i] by simp
  then show ?thesis unfolding pop_def by auto
qed


lemma linear_sum_approx_loop_total:
  "length rows \<le> length index_all \<Longrightarrow>
   \<exists>ind. linear_sum_approx_loop t rows index_all =
            Inr (ind, map (\<lambda>(row, j). t < row ! j) (zip rows ind)) \<and>
         length ind = length rows \<and> set ind \<subseteq> set index_all \<and>
         (distinct index_all \<longrightarrow> distinct ind)"
proof (induction rows arbitrary: index_all)
  case Nil
  then show ?case by simp
next
  case (Cons row rows)
  define vals where "vals = map (\<lambda>i. row ! i) index_all"
  define i_max where "i_max = argmax vals"
  define rest where "rest = pop index_all i_max"
  from Cons.prems have ne: "vals \<noteq> []" by (auto simp: vals_def)
  then have lt: "i_max < length index_all"
    using argmax_less [of vals] by (simp add: i_max_def vals_def)
  have "length rows \<le> length rest"
    using Cons.prems lt by (simp add: length_pop rest_def)
  from Cons.IH [OF this] obtain ind where
    ih: "linear_sum_approx_loop t rows rest =
           Inr (ind, map (\<lambda>(row, j). t < row ! j) (zip rows ind))"
      "length ind = length rows" "set ind \<subseteq> set rest"
      "distinct rest \<longrightarrow> distinct ind"
    by blast
  define new where "new = index_all ! i_max"
  have step: "linear_sum_approx_loop t (row # rows) index_all =
          Inr (new # ind, map (\<lambda>(row, j). t < row ! j) (zip (row # rows) (new # ind)))"
    using ne ih(1)
    by (simp add: np_argmax_def Let_def vals_def [symmetric] i_max_def [symmetric]
        rest_def [symmetric] new_def [symmetric])
  have sub: "set (new # ind) \<subseteq> set index_all"
    using ih(3) set_pop_subset [of index_all i_max] lt by (auto simp: rest_def new_def)
  have dist: "distinct index_all \<longrightarrow> distinct (new # ind)"
    using ih(3,4) distinct_pop [of index_all i_max] lt by (auto simp: rest_def new_def)
  show ?case
    using step sub dist ih(2) by (intro exI [of _ "new # ind"]) simp
qed

lemma is_assignment_length: "is_assignment n p \<Longrightarrow> length p = n"
  unfolding is_assignment_def using distinct_card [of p] by auto

lemma is_assignment_upt: "is_assignment n [0..<n]"
  unfolding is_assignment_def by simp

lemma linear_sum_approx_square:
  assumes "square M"
  shows "\<exists>ind. linear_sum_approx t M =
            Inr (ind, map (\<lambda>(row, j). t < row ! j) (zip M ind)) \<and>
         is_assignment (length M) ind"
proof -
  obtain ind where
    r: "linear_sum_approx_loop t M [0..<length M] =
          Inr (ind, map (\<lambda>(row, j). t < row ! j) (zip M ind))"
    and l: "length ind = length M" and s: "set ind \<subseteq> set [0..<length M]"
    and d: "distinct ind"
    using linear_sum_approx_loop_total [of M "[0..<length M]" t] by auto
  have "card (set ind) = length M" using d l distinct_card [of ind] by simp
  then have "set ind = {0..<length M}"
    using s card_subset_eq [of "{0..<length M}" "set ind"] by simp
  then show ?thesis using r d assms by (auto simp: linear_sum_approx_def is_assignment_def)
qed


lemma zip_rows_keep:
  "length ind = length M \<Longrightarrow>
   map (\<lambda>(row, j). t < row ! j) (zip M ind) = map (\<lambda>i. t < M ! i ! (ind ! i)) [0..<length M]"
  by (rule nth_equalityI) auto

lemma zip_upt_keep:
  "length ind = n \<Longrightarrow>
   map (\<lambda>(i, j). t < M ! i ! j) (zip [0..<n] ind) = map (\<lambda>i. t < M ! i ! (ind ! i)) [0..<n]"
  by (rule nth_equalityI) auto

lemma insert_everywhere_props:
  "p \<in> set (insert_everywhere x ys) \<Longrightarrow>
   set p = insert x (set ys) \<and> (distinct p \<longleftrightarrow> x \<notin> set ys \<and> distinct ys)"
  by (induction ys arbitrary: p) auto

lemma insert_everywhere_mem: "a @ x # b \<in> set (insert_everywhere x (a @ b))"
  by (induction a) (auto, (cases b; simp))

lemma perms_sound:
  "distinct xs \<Longrightarrow> p \<in> set (perms xs) \<Longrightarrow> distinct p \<and> set p = set xs"
proof (induction xs arbitrary: p)
  case Nil
  then show ?case by simp
next
  case (Cons x xs)
  from Cons.prems(2) obtain q where q: "q \<in> set (perms xs)" "p \<in> set (insert_everywhere x q)"
    by auto
  from Cons.IH [OF _ q(1)] Cons.prems(1) have "distinct q" "set q = set xs" by auto
  with insert_everywhere_props [OF q(2)] Cons.prems(1) show ?case by auto
qed

lemma perms_complete:
  "distinct xs \<Longrightarrow> distinct p \<Longrightarrow> set p = set xs \<Longrightarrow> p \<in> set (perms xs)"
proof (induction xs arbitrary: p)
  case Nil
  then show ?case by simp
next
  case (Cons x xs)
  have "x \<in> set p" using Cons.prems(3) by simp
  then obtain a b where p: "p = a @ x # b" by (auto dest: split_list)
  have nx: "x \<notin> set (a @ b)" and dab: "distinct (a @ b)"
    using Cons.prems(2) by (auto simp: p)
  have "set (a @ b) = set xs"
    using Cons.prems(1,3) nx unfolding p by auto
  with Cons.IH [of "a @ b"] Cons.prems(1) dab have "a @ b \<in> set (perms xs)" by simp
  moreover have "p \<in> set (insert_everywhere x (a @ b))"
    unfolding p by (rule insert_everywhere_mem)
  ultimately show ?case by auto
qed

lemma perms_upt_iff: "p \<in> set (perms [0..<n]) \<longleftrightarrow> is_assignment n p"
  using perms_sound [of "[0..<n]" p] perms_complete [of "[0..<n]" p]
  by (auto simp: is_assignment_def)

lemma lsa_exhaustive_contract: "lsa_contract lsa_exhaustive"
  unfolding lsa_contract_def
proof (intro allI impI)
  fix C :: "real list list"
  let ?ps = "perms [0..<length C]"
  let ?best = "arg_min_list (matched_weight C) ?ps"
  have ne: "?ps \<noteq> []"
    using perms_upt_iff [of "[0..<length C]" "length C"] is_assignment_upt [of "length C"]
    by auto
  have mem: "?best \<in> set ?ps" by (rule arg_min_list_in [OF ne])
  have least: "matched_weight C ?best \<le> matched_weight C p" if "is_assignment (length C) p" for p
  proof -
    have "p \<in> set ?ps" using that by (simp add: perms_upt_iff)
    then have "Min (matched_weight C ` set ?ps) \<le> matched_weight C p" by simp
    then show ?thesis by (simp add: f_arg_min_list_f [OF ne])
  qed
  show "fst (lsa_exhaustive C) = [0..<length C] \<and>
        is_assignment (length C) (snd (lsa_exhaustive C)) \<and>
        (\<forall>p. is_assignment (length C) p \<longrightarrow>
           matched_weight C (snd (lsa_exhaustive C)) \<le> matched_weight C p)"
    using mem least by (simp add: lsa_exhaustive_def perms_upt_iff)
qed

lemma square_uminus: "square M \<Longrightarrow> square (map (map uminus) M)"
  by (auto simp: square_def)

lemma linear_sum_scipy_square:
  assumes c: "lsa_contract solver" and sq: "square M"
  shows "\<exists>ind. linear_sum_scipy solver t M =
            Inr (ind, map (\<lambda>i. t < M ! i ! (ind ! i)) [0..<length M]) \<and>
         is_assignment (length M) ind \<and>
         (\<forall>p. is_assignment (length M) p \<longrightarrow>
            matched_weight (map (map uminus) M) ind \<le> matched_weight (map (map uminus) M) p)"
proof -
  let ?C = "map (map uminus) M"
  obtain orig perm where r: "solver ?C = (orig, perm)" by (cases "solver ?C")
  have o: "orig = [0..<length M]" and a: "is_assignment (length M) perm"
    and m: "\<And>p. is_assignment (length M) p \<Longrightarrow> matched_weight ?C perm \<le> matched_weight ?C p"
    using c square_uminus [OF sq] r unfolding lsa_contract_def
    by (fastforce dest: spec [of _ ?C])+
  have l: "length perm = length M" by (rule is_assignment_length [OF a])
  have b: "\<forall>(i, j)\<in>set (zip orig perm). j < length (M ! i)"
  proof (clarify)
    fix i j assume ij: "(i, j) \<in> set (zip orig perm)"
    then have "i < length M" "j \<in> set perm" unfolding o by (auto dest: set_zip_leftD set_zip_rightD)
    then show "j < length (M ! i)" using a sq by (auto simp: is_assignment_def square_def)
  qed
  have "linear_sum_scipy solver t M = Inr (perm, map (\<lambda>(i, j). t < M ! i ! j) (zip orig perm))"
    using r o l b by (simp add: linear_sum_scipy_def)
  then show ?thesis using a m zip_upt_keep [OF l] o by auto
qed

subsection \<open>The index and keep arrays\<close>

lemma slice3_square:
  "shape om = [n, B, B] \<Longrightarrow> square (slice3 om i) \<and> length (slice3 om i) = B"
  by (simp add: slice3_def square_def)

lemma slice3_nth:
  "shape om = [n, B, B] \<Longrightarrow> a < B \<Longrightarrow> b < B \<Longrightarrow> slice3 om i ! a ! b = at3 om i a b"
  by (simp add: slice3_def)

lemma take_rows_assignment:
  assumes "square S" "length S = B" "is_assignment B prev"
  shows "take_rows S prev = Inr (map (\<lambda>i. S ! i) prev)"
    and "square (map (\<lambda>i. S ! i) prev)" and "length (map (\<lambda>i. S ! i) prev) = B"
proof -
  have l: "length prev = B" by (rule is_assignment_length [OF assms(3)])
  have b: "\<forall>i\<in>set prev. i < length S" using assms by (simp add: is_assignment_def)
  then show "take_rows S prev = Inr (map (\<lambda>i. S ! i) prev)" by (simp add: take_rows_def)
  show "square (map (\<lambda>i. S ! i) prev)" using assms(1,2) b l by (auto simp: square_def)
  show "length (map (\<lambda>i. S ! i) prev) = B" using l by simp
qed

lemma ind_keep_loop_steps:
  "ind_keep_loop func Ss prev = Inr (inds, keeps) \<Longrightarrow>
   length inds = length Ss \<and> length keeps = length Ss \<and>
   (\<forall>k<length Ss. \<exists>M. take_rows (Ss ! k) ((prev # inds) ! k) = Inr M \<and>
                        func M = Inr (inds ! k, keeps ! k))"
proof (induction Ss arbitrary: prev inds keeps)
  case Nil
  then show ?case by simp
next
  case (Cons S Ss)
  from Cons.prems obtain M ind keep inds' keeps' where
    s: "take_rows S prev = Inr M" "func M = Inr (ind, keep)"
       "ind_keep_loop func Ss ind = Inr (inds', keeps')"
       "inds = ind # inds'" "keeps = keep # keeps'"
    by (auto split: sum.splits prod.splits)
  note ih = Cons.IH [OF s(3)]
  show ?case
  proof (intro conjI allI impI)
    show "length inds = length (S # Ss)" "length keeps = length (S # Ss)"
      using ih s(4,5) by simp_all
    fix k assume k: "k < length (S # Ss)"
    show "\<exists>M. take_rows ((S # Ss) ! k) ((prev # inds) ! k) = Inr M \<and>
               func M = Inr (inds ! k, keeps ! k)"
    proof (cases k)
      case 0
      then show ?thesis using s by simp
    next
      case (Suc j)
      then have "j < length Ss" using k by simp
      with ih obtain M' where
        "take_rows (Ss ! j) ((ind # inds') ! j) = Inr M'" "func M' = Inr (inds' ! j, keeps' ! j)"
        by blast
      then show ?thesis using Suc s(4,5) by simp
    qed
  qed
qed

lemma ind_keep_loop_total:
  assumes f: "\<And>M. square M \<Longrightarrow>
                \<exists>ind keep. func M = Inr (ind, keep) \<and> is_assignment (length M) ind \<and>
                           length keep = length M"
  shows "\<forall>S\<in>set Ss. square S \<and> length S = B \<Longrightarrow> is_assignment B prev \<Longrightarrow>
         \<exists>inds keeps. ind_keep_loop func Ss prev = Inr (inds, keeps) \<and>
           (\<forall>r\<in>set inds. is_assignment B r) \<and> (\<forall>r\<in>set keeps. length r = B)"
proof (induction Ss arbitrary: prev)
  case Nil
  then show ?case by simp
next
  case (Cons S Ss)
  let ?M = "map (\<lambda>i. S ! i) prev"
  have S: "square S" "length S = B" using Cons.prems(1) by simp_all
  note tr = take_rows_assignment [OF S Cons.prems(2)]
  from f [OF tr(2)] tr(3) obtain ind keep where
    r: "func ?M = Inr (ind, keep)" "is_assignment B ind" "length keep = B"
    by auto
  from Cons.IH [OF _ r(2)] Cons.prems(1) obtain inds keeps where
    ih: "ind_keep_loop func Ss ind = Inr (inds, keeps)"
        "\<forall>r\<in>set inds. is_assignment B r" "\<forall>r\<in>set keeps. length r = B"
    by auto
  show ?case using tr(1) r ih by simp
qed

lemma routine_total:
  assumes "lsa_contract solver" "routine d = 0 \<or> routine d = 1"
  shows "\<exists>func. select_routine solver d = Inr func \<and>
           (\<forall>M. square M \<longrightarrow>
              (\<exists>ind. func M = Inr (ind, map (\<lambda>i. threshold d < M ! i ! (ind ! i)) [0..<length M]) \<and>
                      is_assignment (length M) ind))"
proof (cases "routine d = 0")
  case True
  have "\<exists>ind. linear_sum_approx (threshold d) M =
               Inr (ind, map (\<lambda>i. threshold d < M ! i ! (ind ! i)) [0..<length M]) \<and>
             is_assignment (length M) ind" if "square M" for M
  proof -
    from linear_sum_approx_square [OF that, of "threshold d"] obtain ind where
      i: "linear_sum_approx (threshold d) M =
            Inr (ind, map (\<lambda>(row, j). threshold d < row ! j) (zip M ind))"
         "is_assignment (length M) ind" by blast
    show ?thesis using i zip_rows_keep [OF is_assignment_length [OF i(2)], of "threshold d"]
      by auto
  qed
  then show ?thesis using True by (simp add: select_routine_def)
next
  case False
  then have r: "routine d = 1" using assms(2) by simp
  have "\<exists>ind. linear_sum_scipy solver (threshold d) M =
               Inr (ind, map (\<lambda>i. threshold d < M ! i ! (ind ! i)) [0..<length M]) \<and>
             is_assignment (length M) ind" if "square M" for M
    using linear_sum_scipy_square [OF assms(1) that, of "threshold d"] by blast
  then show ?thesis using r by (simp add: select_routine_def)
qed


lemma calc_ind_keep_char:
  assumes c: "lsa_contract solver" and sh: "shape (overlap_matrix d) = [n, B, B]"
    and r: "routine d = 0 \<or> routine d = 1"
  shows "\<exists>func ind keep.
           select_routine solver d = Inr func \<and>
           calc_ind_keep solver d = Inr (ind, keep) \<and>
           length ind = Suc n \<and> length keep = Suc n \<and>
           ind ! 0 = [0..<B] \<and> keep ! 0 = replicate B True \<and>
           (\<forall>k\<le>n. is_assignment B (ind ! k) \<and> length (keep ! k) = B) \<and>
           (\<forall>k<n. \<exists>M. take_rows (slice3 (overlap_matrix d) k) (ind ! k) = Inr M \<and>
                        func M = Inr (ind ! Suc k, keep ! Suc k)) \<and>
           (\<forall>k<n. \<forall>b<B. keep ! Suc k ! b \<longleftrightarrow>
                      threshold d < at3 (overlap_matrix d) k (ind ! k ! b) (ind ! Suc k ! b))"
proof -
  define om where "om = overlap_matrix d"
  define Ss where "Ss = map (slice3 om) [0..<n]"
  have sh': "shape om = [n, B, B]" using sh by (simp add: om_def)
  from routine_total [OF c r] obtain func where
    sel: "select_routine solver d = Inr func"
    and fk: "\<And>M. square M \<Longrightarrow>
               \<exists>ind. func M = Inr (ind, map (\<lambda>i. threshold d < M ! i ! (ind ! i)) [0..<length M]) \<and>
                     is_assignment (length M) ind"
    by blast
  have f: "\<exists>ind keep. func M = Inr (ind, keep) \<and> is_assignment (length M) ind \<and>
             length keep = length M" if "square M" for M
    using fk [OF that] by auto
  have SS: "\<forall>S\<in>set Ss. square S \<and> length S = B"
    using slice3_square [OF sh'] by (auto simp: Ss_def)
  from ind_keep_loop_total [of func Ss B "[0..<B]", OF f SS is_assignment_upt]
  obtain inds keeps where
    lp: "ind_keep_loop func Ss [0..<B] = Inr (inds, keeps)"
    and ia: "\<forall>r\<in>set inds. is_assignment B r" and kl: "\<forall>r\<in>set keeps. length r = B"
    by blast
  note st = ind_keep_loop_steps [OF lp]
  have len: "length inds = n" "length keeps = n" using st by (simp_all add: Ss_def)
  define ind where "ind = [0..<B] # inds"
  define keep where "keep = replicate B True # keeps"
  have res: "calc_ind_keep solver d = Inr (ind, keep)"
    using sh' sel lp
    by (simp add: calc_ind_keep_def om_def [symmetric] Ss_def [symmetric] ind_def keep_def)
  have rows: "is_assignment B (ind ! k) \<and> length (keep ! k) = B" if "k \<le> n" for k
  proof (cases k)
    case 0
    then show ?thesis by (simp add: ind_def keep_def is_assignment_upt)
  next
    case (Suc j)
    then have "j < n" using that by simp
    then have "inds ! j \<in> set inds" "keeps ! j \<in> set keeps" using len by simp_all
    then show ?thesis using ia kl Suc by (simp add: ind_def keep_def)
  qed
  have step: "\<exists>M. take_rows (slice3 om k) (ind ! k) = Inr M \<and>
                   func M = Inr (ind ! Suc k, keep ! Suc k)" if "k < n" for k
    using st that by (simp add: Ss_def ind_def keep_def)
  have val: "keep ! Suc k ! b \<longleftrightarrow> threshold d < at3 om k (ind ! k ! b) (ind ! Suc k ! b)"
    if k: "k < n" and b: "b < B" for k b
  proof -
    let ?M = "map (\<lambda>i. slice3 om k ! i) (ind ! k)"
    have a: "is_assignment B (ind ! k)" and a': "is_assignment B (ind ! Suc k)"
      using rows [of k] rows [of "Suc k"] k by simp_all
    note tr = take_rows_assignment [OF conjunct1 [OF slice3_square [OF sh']]
        conjunct2 [OF slice3_square [OF sh']] a, of k]
    from step [OF k] tr(1) have fM: "func ?M = Inr (ind ! Suc k, keep ! Suc k)" by simp
    from fk [OF tr(2)] fM tr(3)
    have kv: "keep ! Suc k = map (\<lambda>i. threshold d < ?M ! i ! (ind ! Suc k ! i)) [0..<B]"
      by auto
    have l: "length (ind ! k) = B" "length (ind ! Suc k) = B"
      using a a' by (simp_all add: is_assignment_length)
    have i1: "ind ! k ! b < B" using a b l(1) nth_mem [of b "ind ! k"]
      by (auto simp: is_assignment_def)
    have i2: "ind ! Suc k ! b < B" using a' b l(2) nth_mem [of b "ind ! Suc k"]
      by (auto simp: is_assignment_def)
    have "?M ! b ! (ind ! Suc k ! b) = at3 om k (ind ! k ! b) (ind ! Suc k ! b)"
      using b l(1) slice3_nth [OF sh' i1 i2] by simp
    then show ?thesis using kv b by simp
  qed
  show ?thesis
    using sel res len rows step val
    unfolding om_def [symmetric]
    by (intro exI [of _ func] exI [of _ ind] exI [of _ keep]) (simp add: ind_def keep_def)
qed

lemma linear_sum_approx_loop_indep:
  "linear_sum_approx_loop t rows index_all = Inr (ind, keep) \<Longrightarrow>
   \<exists>keep'. linear_sum_approx_loop t' rows index_all = Inr (ind, keep')"
proof (induction rows arbitrary: index_all ind keep)
  case Nil
  then show ?case by simp
next
  case (Cons row rows)
  from Cons.prems obtain i_max ind0 keep0 where
    s: "np_argmax (map (\<lambda>i. row ! i) index_all) = Inr i_max"
       "linear_sum_approx_loop t rows (pop index_all i_max) = Inr (ind0, keep0)"
       "ind = index_all ! i_max # ind0"
    by (auto simp: Let_def split: sum.splits prod.splits)
  from Cons.IH [OF s(2)] obtain keep1 where
    "linear_sum_approx_loop t' rows (pop index_all i_max) = Inr (ind0, keep1)" by blast
  then show ?case using s(1,3) by (simp add: Let_def)
qed

lemma select_routine_indep:
  assumes "select_routine solver d = Inr f" "select_routine solver (d\<lparr>threshold := t'\<rparr>) = Inr f'"
    and "f M = Inr (ind, keep)"
  shows "\<exists>keep'. f' M = Inr (ind, keep')"
proof (cases "routine d = 0")
  case True
  then have "f = linear_sum_approx (threshold d)" "f' = linear_sum_approx t'"
    using assms(1,2) by (simp_all add: select_routine_def)
  then show ?thesis
    using assms(3) linear_sum_approx_loop_indep [of "threshold d" M "[0..<length M]" ind keep t']
    by (auto simp: linear_sum_approx_def split: if_splits)
next
  case False
  then have "f = linear_sum_scipy solver (threshold d)" "f' = linear_sum_scipy solver t'"
    using assms(1,2) by (auto simp: select_routine_def split: if_splits)
  then show ?thesis
    using assms(3) by (auto simp: linear_sum_scipy_def split: prod.splits if_splits)
qed

lemma ind_keep_loop_indep:
  assumes "\<And>M ind keep. f M = Inr (ind, keep) \<Longrightarrow> \<exists>keep'. f' M = Inr (ind, keep')"
  shows "ind_keep_loop f Ss prev = Inr (inds, keeps) \<Longrightarrow>
         \<exists>keeps'. ind_keep_loop f' Ss prev = Inr (inds, keeps')"
proof (induction Ss arbitrary: prev inds keeps)
  case Nil
  then show ?case by simp
next
  case (Cons S Ss)
  from Cons.prems obtain M ind keep inds0 keeps0 where
    s: "take_rows S prev = Inr M" "f M = Inr (ind, keep)"
       "ind_keep_loop f Ss ind = Inr (inds0, keeps0)" "inds = ind # inds0"
    by (auto split: sum.splits prod.splits)
  from assms [OF s(2)] obtain keep' where k: "f' M = Inr (ind, keep')" by blast
  from Cons.IH [OF s(3)] obtain keeps' where
    "ind_keep_loop f' Ss ind = Inr (inds0, keeps')" by blast
  then show ?case using s(1,4) k by simp
qed

lemma calc_ind_keep_indep:
  assumes "calc_ind_keep solver d = Inr (ind, keep)"
  shows "\<exists>keep'. calc_ind_keep solver (d\<lparr>threshold := t'\<rparr>) = Inr (ind, keep')"
proof -
  let ?d' = "d\<lparr>threshold := t'\<rparr>"
  let ?om = "overlap_matrix d"
  from assms obtain f inds keeps where
    s: "length (shape ?om) = 3" "shape ?om ! 1 = shape ?om ! 2"
       "select_routine solver d = Inr f"
       "ind_keep_loop f (map (slice3 ?om) [0..<shape ?om ! 0]) [0..<shape ?om ! 1] = Inr (inds, keeps)"
       "ind = [0..<shape ?om ! 1] # inds"
    by (auto simp: calc_ind_keep_def Let_def split: if_splits sum.splits prod.splits)
  from s(3) obtain f' where f': "select_routine solver ?d' = Inr f'"
    by (auto simp: select_routine_def split: if_splits)
  have h: "\<exists>keep'. f' M = Inr (i, keep')" if "f M = Inr (i, k)" for M i k
    using select_routine_indep [OF s(3) f' that] .
  have "\<exists>keeps'. ind_keep_loop f' (map (slice3 ?om) [0..<shape ?om ! 0]) [0..<shape ?om ! 1] =
           Inr (inds, keeps')"
  proof (rule ind_keep_loop_indep [where f = f, OF _ s(4)])
    fix M i k assume "f M = Inr (i, k)"
    then show "\<exists>keep'. f' M = Inr (i, keep')" by (rule h)
  qed
  then show ?thesis using s(1,2,5) f' by (auto simp: calc_ind_keep_def Let_def)
qed

lemma sample_overlap_wf: "wf_ndarray sample_overlap"
  by (simp add: wf_ndarray_def sample_overlap_def)

lemma sample_engine_shape: "shape (overlap_matrix (sample_engine t r)) = [2, 2, 2]"
  by (simp add: sample_engine_def sample_overlap_def)

lemma sample_engine_wf: "wf_ndarray (overlap_matrix (sample_engine t r))"
  by (simp add: sample_engine_def sample_overlap_wf)

lemma idx3_bound:
  fixes k a b n B C :: nat
  assumes "k < n" "a < B" "b < C"
  shows "(k * B + a) * C + b < n * B * C"
proof -
  have "k * B + a < Suc k * B" using assms(2) by simp
  also have "\<dots> \<le> n * B" using assms(1) by (intro mult_le_mono1) simp
  finally have "Suc (k * B + a) \<le> n * B" by simp
  then have "Suc (k * B + a) * C \<le> n * B * C" by (rule mult_le_mono1)
  moreover have "(k * B + a) * C + b < Suc (k * B + a) * C" using assms(3) by simp
  ultimately show ?thesis by linarith
qed

lemma at3_in_items:
  assumes "wf_ndarray om" "shape om = [n, B, C]" "k < n" "a < B" "b < C"
  shows "at3 om k a b \<in> set (items om)"
proof -
  have "length (items om) = n * B * C" using assms(1,2) by (simp add: wf_ndarray_def)
  then show ?thesis
    using idx3_bound [OF assms(3-5)] assms(2) by (simp add: at3_def)
qed

subsection \<open>The working indices\<close>

lemma retire_step_zero: "retire_step 0 keep_row i tmp = tmp"
  by (simp add: retire_step_def)

lemma retire_row_zero: "retire_row 0 keep_row tmp = tmp"
proof -
  have "fold (retire_step 0 keep_row) is tmp = tmp" for "is"
    by (induction "is") (simp_all add: retire_step_zero)
  then show ?thesis by (simp add: retire_row_def)
qed

lemma working_indices_loop_zero:
  "working_indices_loop 0 keeps tmp = replicate (length keeps) tmp"
  by (induction keeps) (simp_all add: retire_row_zero)

lemma retire_step_fresh:
  assumes "i < length tmp" "\<not> keep_row ! i" "t \<noteq> 0"
  shows "\<forall>x\<in>set tmp. x < retire_step t keep_row i tmp ! i"
proof -
  have "retire_step t keep_row i tmp ! i = Max (set tmp) + 1"
    using assms by (simp add: retire_step_def)
  moreover have "\<forall>x\<in>set tmp. x \<le> Max (set tmp)" by simp
  ultimately show ?thesis by (simp add: less_Suc_eq_le)
qed

lemma retire_step_distinct:
  assumes "distinct tmp" "i < length tmp"
  shows "distinct (retire_step t keep_row i tmp) \<and>
         length (retire_step t keep_row i tmp) = length tmp"
proof (cases "\<not> keep_row ! i \<and> \<not> t = 0")
  case False
  then show ?thesis using assms by (auto simp: retire_step_def)
next
  case True
  have "Max (set tmp) + 1 \<notin> set tmp"
  proof
    assume "Max (set tmp) + 1 \<in> set tmp"
    then have "Max (set tmp) + 1 \<le> Max (set tmp)" by simp
    then show False by simp
  qed
  then have "distinct (tmp[i := Max (set tmp) + 1])"
    using assms(1) by (simp add: distinct_list_update)
  then show ?thesis using True by (simp add: retire_step_def)
qed

lemma fold_retire_step_distinct:
  "distinct tmp \<Longrightarrow> \<forall>i\<in>set is. i < length tmp \<Longrightarrow>
   distinct (fold (retire_step t keep_row) is tmp) \<and>
   length (fold (retire_step t keep_row) is tmp) = length tmp"
proof (induction "is" arbitrary: tmp)
  case Nil
  then show ?case by simp
next
  case (Cons i "is")
  from retire_step_distinct [OF Cons.prems(1), of i t keep_row] Cons.prems(2)
  have s: "distinct (retire_step t keep_row i tmp)"
    "length (retire_step t keep_row i tmp) = length tmp" by simp_all
  from Cons.IH [OF s(1)] Cons.prems(2) s(2) show ?case by simp
qed

lemma retire_row_distinct:
  "distinct tmp \<Longrightarrow>
   distinct (retire_row t keep_row tmp) \<and> length (retire_row t keep_row tmp) = length tmp"
  unfolding retire_row_def by (rule fold_retire_step_distinct) simp_all

lemma working_indices_loop_distinct:
  "distinct tmp \<Longrightarrow>
   length (working_indices_loop t keeps tmp) = length keeps \<and>
   (\<forall>row\<in>set (working_indices_loop t keeps tmp). distinct row \<and> length row = length tmp)"
proof (induction keeps arbitrary: tmp)
  case Nil
  then show ?case by simp
next
  case (Cons keep_row keeps)
  note r = retire_row_distinct [OF Cons.prems, of t keep_row]
  from Cons.IH [OF conjunct1 [OF r]] r show ?case by (simp add: Let_def)
qed


lemma calc_disentangle_matrix_unfold:
  assumes "calc_ind_keep solver d = Inr (ind, keep)" "shape (overlap_matrix d) = [n, B, B]"
  shows "calc_disentangle_matrix solver d =
           (if threshold d = 0 then
              (case np_max (concat (working_indices_loop (threshold d) keep [0..<B])) of
                 Inl e \<Rightarrow> Inl e
               | Inr m \<Rightarrow>
                   if m + 1 = B then Inr (ind, working_indices_loop (threshold d) keep [0..<B])
                   else Inl AssertionError)
            else Inr (ind, working_indices_loop (threshold d) keep [0..<B]))"
  using assms by (auto simp: calc_disentangle_matrix_def Let_def split: sum.splits)

lemma np_max_identity_rows:
  assumes "0 < B"
  shows "np_max (concat (replicate (Suc n) [0..<B])) = Inr (B - 1)"
proof -
  have ne: "concat (replicate (Suc n) [0..<B]) \<noteq> []" using assms by simp
  have "set (concat (replicate (Suc n) [0..<B])) = {0..<B}" by auto
  moreover have "Max {0..<B} = B - 1"
    using assms by (intro Max_eqI) auto
  ultimately show ?thesis using ne by (simp add: np_max_def del: replicate.simps)
qed

subsection \<open>The sample path\<close>

lemma is_assignment_01: "is_assignment 2 [0, 1]" "is_assignment 2 [1, 0]"
  by (auto simp: is_assignment_def)

lemma is_assignment_2D:
  assumes a: "is_assignment 2 p"
  shows "p = [0, 1] \<or> p = [1, 0]"
proof -
  have "length p = Suc (Suc 0)" using is_assignment_length [OF a] by simp
  then obtain x y where p: "p = [x, y]"
    by (auto simp: length_Suc_conv)
  have "x \<in> set p" "y \<in> set p" unfolding p by simp_all
  then have b: "x < 2" "y < 2" using a by (simp_all add: is_assignment_def)
  have "distinct p" using a by (simp add: is_assignment_def)
  then have "x \<noteq> y" unfolding p by simp
  with b have "x = 0 \<and> y = 1 \<or> x = 1 \<and> y = 0" by linarith
  then show ?thesis unfolding p by simp
qed


lemma upt_2: "[0..<2] = [0, Suc 0]"
  by (simp add: numeral_2_eq_2)

lemma matched_weight_2x2:
  "matched_weight [[a, b], [c, d]] [0, 1] = a + d"
  "matched_weight [[a, b], [c, d]] [1, 0] = b + c"
  by (simp_all add: matched_weight_def upt_2 [unfolded numeral_2_eq_2])

lemma linear_sum_scipy_2x2:
  assumes "lsa_contract solver"
  shows "b + c < a + d \<Longrightarrow>
         linear_sum_scipy solver t [[a, b], [c, d]] = Inr ([0, 1], [t < a, t < d])"
    and "a + d < b + c \<Longrightarrow>
         linear_sum_scipy solver t [[a, b], [c, d]] = Inr ([1, 0], [t < b, t < c])"
proof -
  let ?M = "[[a, b], [c, d]]"
  let ?C = "[[- a, - b], [- c, - d]]"
  have sq: "square ?M" by (simp add: square_def)
  have C: "map (map uminus) ?M = ?C" by simp
  have l: "length ?M = 2" by simp
  from linear_sum_scipy_square [OF assms sq, of t] obtain ind where
    r: "linear_sum_scipy solver t ?M = Inr (ind, map (\<lambda>i. t < ?M ! i ! (ind ! i)) [0..<2])"
    and a: "is_assignment 2 ind"
    and m: "\<forall>p. is_assignment 2 p \<longrightarrow> matched_weight ?C ind \<le> matched_weight ?C p"
    unfolding C l by blast
  have m01: "matched_weight ?C ind \<le> - a + - d"
    using m is_assignment_01(1) matched_weight_2x2(1) [of "- a" "- b" "- c" "- d"] by metis
  have m10: "matched_weight ?C ind \<le> - b + - c"
    using m is_assignment_01(2) matched_weight_2x2(2) [of "- a" "- b" "- c" "- d"] by metis
  {
    assume lt: "b + c < a + d"
    have "ind \<noteq> [1, 0]"
    proof
      assume i: "ind = [1, 0]"
      show False using m01 lt unfolding i matched_weight_2x2 by simp
    qed
    then have "ind = [0, 1]" using is_assignment_2D [OF a] by simp
    then show "linear_sum_scipy solver t ?M = Inr ([0, 1], [t < a, t < d])"
      using r by (simp add: upt_2)
  }
  {
    assume lt: "a + d < b + c"
    have "ind \<noteq> [0, 1]"
    proof
      assume i: "ind = [0, 1]"
      show False using m10 lt unfolding i matched_weight_2x2 by simp
    qed
    then have "ind = [1, 0]" using is_assignment_2D [OF a] by simp
    then show "linear_sum_scipy solver t ?M = Inr ([1, 0], [t < b, t < c])"
      using r by (simp add: upt_2)
  }
qed


lemma sample_slices:
  "map (slice3 sample_overlap) [0..<2] = [[[0.9, 0.1], [0.1, 0.9]], [[0.05, 0.95], [0.95, 0.05]]]"
  by (simp add: slice3_def at3_def sample_overlap_def upt_2)

lemma sample_greedy:
  "linear_sum_approx t [[0.9, 0.1], [0.1, 0.9]] = Inr ([0, 1], [t < 0.9, t < 0.9])"
  "linear_sum_approx t [[0.05, 0.95], [0.95, 0.05]] = Inr ([1, 0], [t < 0.95, t < 0.95])"
  by (simp_all add: linear_sum_approx_def square_def np_argmax_def pop_def upt_2)

lemma sample_scipy:
  assumes "lsa_contract solver"
  shows "linear_sum_scipy solver t [[0.9, 0.1], [0.1, 0.9]] = Inr ([0, 1], [t < 0.9, t < 0.9])"
    and "linear_sum_scipy solver t [[0.05, 0.95], [0.95, 0.05]] = Inr ([1, 0], [t < 0.95, t < 0.95])"
  by (rule linear_sum_scipy_2x2 [OF assms], simp)+

lemma sample_loop:
  assumes "func [[0.9, 0.1], [0.1, 0.9]] = Inr ([0, 1], [t < 0.9, t < 0.9])"
    and "func [[0.05, 0.95], [0.95, 0.05]] = Inr ([1, 0], [t < 0.95, t < 0.95])"
  shows "ind_keep_loop func [[[0.9, 0.1], [0.1, 0.9]], [[0.05, 0.95], [0.95, 0.05]]] [0, Suc 0] =
           Inr ([[0, 1], [1, 0]], [[t < 0.9, t < 0.9], [t < 0.95, t < 0.95]])"
  using assms by (simp add: take_rows_def)

lemma sample_ind_keep:
  assumes "lsa_contract solver" "r = 0 \<or> r = 1"
  shows "calc_ind_keep solver (sample_engine t r) =
           Inr ([[0, 1], [0, 1], [1, 0]],
                [[True, True], [t < 0.9, t < 0.9], [t < 0.95, t < 0.95]])"
proof -
  have sh: "shape sample_overlap = [2, 2, 2]" by (simp add: sample_overlap_def)
  obtain func where f: "select_routine solver (sample_engine t r) = Inr func"
    and f1: "func [[0.9, 0.1], [0.1, 0.9]] = Inr ([0, 1], [t < 0.9, t < 0.9])"
    and f2: "func [[0.05, 0.95], [0.95, 0.05]] = Inr ([1, 0], [t < 0.95, t < 0.95])"
  proof (cases "r = 0")
    case True
    then show ?thesis
      using that [of "linear_sum_approx t"] sample_greedy [of t]
      by (simp add: select_routine_def sample_engine_def)
  next
    case False
    then have "r = 1" using assms(2) by simp
    then show ?thesis
      using that [of "linear_sum_scipy solver t"] sample_scipy [OF assms(1), of t]
      by (simp add: select_routine_def sample_engine_def)
  qed
  have om: "overlap_matrix (sample_engine t r) = sample_overlap"
    by (simp add: sample_engine_def)
  have n: "length (shape sample_overlap) = 3" "shape sample_overlap ! 0 = 2"
    "shape sample_overlap ! 1 = 2" "shape sample_overlap ! 2 = 2"
    by (simp_all add: sh)
  have lp: "ind_keep_loop func (map (slice3 sample_overlap) [0..<2]) [0..<2] =
              Inr ([[0, 1], [1, 0]], [[t < 0.9, t < 0.9], [t < 0.95, t < 0.95]])"
    unfolding sample_slices unfolding upt_2 by (rule sample_loop [OF f1 f2])
  have e: "[0..<2] = [0, 1]" "replicate 2 True = [True, True]"
    by (simp_all add: upt_2 numeral_2_eq_2)
  show ?thesis
    unfolding calc_ind_keep_def om Let_def n f sum.case unfolding lp unfolding e by simp
qed

lemma sample_disentangle_zero:
  assumes "lsa_contract solver" "r = 0 \<or> r = 1"
  shows "calc_disentangle_matrix solver (sample_engine 0 r) =
           Inr ([[0, 1], [0, 1], [1, 0]], [[0, 1], [0, 1], [0, 1]])"
proof -
  have w: "working_indices_loop 0 [[True, True], [True, True], [True, True]] [0..<2] =
             [[0, 1], [0, 1], [0, 1]]"
    unfolding working_indices_loop_zero by (simp add: upt_2 numeral_3_eq_3)
  have m: "np_max (concat [[0, 1], [0, 1], [0, 1]]) = Inr 1"
    by (simp add: np_max_def)
  have t: "threshold (sample_engine 0 r) = 0" by (simp add: sample_engine_def)
  have k: "calc_ind_keep solver (sample_engine 0 r) =
             Inr ([[0, 1], [0, 1], [1, 0]], [[True, True], [True, True], [True, True]])"
    using sample_ind_keep [OF assms, of 0] by simp
  show ?thesis
    unfolding calc_disentangle_matrix_unfold [OF k sample_engine_shape] t w m by simp
qed

subsection \<open>The scatter write\<close>

lemma scatter_row_nth:
  "distinct ws \<Longrightarrow> length ws = length vals \<Longrightarrow> \<forall>w\<in>set ws. w < length out \<Longrightarrow>
   length (scatter_row out ws vals) = length out \<and>
   (\<forall>b<length ws. scatter_row out ws vals ! (ws ! b) = vals ! b) \<and>
   (\<forall>j<length out. j \<notin> set ws \<longrightarrow> scatter_row out ws vals ! j = out ! j)"
proof (induction ws arbitrary: vals out)
  case Nil
  then show ?case by (simp add: scatter_row_def)
next
  case (Cons w ws)
  from Cons.prems(2) obtain v vs where vals: "vals = v # vs" by (cases vals) auto
  let ?out = "out[w := v]"
  have step: "scatter_row out (w # ws) vals = scatter_row ?out ws vs"
    by (simp add: scatter_row_def vals)
  have "distinct ws" "length ws = length vs" "\<forall>x\<in>set ws. x < length ?out"
    using Cons.prems by (simp_all add: vals)
  from Cons.IH [OF this] have
    ih: "length (scatter_row ?out ws vs) = length out"
        "\<forall>b<length ws. scatter_row ?out ws vs ! (ws ! b) = vs ! b"
        "\<forall>j<length out. j \<notin> set ws \<longrightarrow> scatter_row ?out ws vs ! j = ?out ! j"
    by simp_all
  have w: "w < length out" "w \<notin> set ws" using Cons.prems(1,3) by simp_all
  have "scatter_row ?out ws vs ! ((w # ws) ! b) = vals ! b" if "b < length (w # ws)" for b
  proof (cases b)
    case 0
    then show ?thesis using ih(3) w by (simp add: vals)
  next
    case (Suc c)
    then show ?thesis using ih(2) that by (simp add: vals)
  qed
  moreover have "scatter_row ?out ws vs ! j = out ! j" if "j < length out" "j \<notin> set (w # ws)" for j
    using ih(3) that by simp
  ultimately show ?case unfolding step using ih(1) by blast
qed

lemma calc_disentangle_matrix_total:
  assumes "lsa_contract solver" and "shape (overlap_matrix d) = [n, B, B]"
    and "routine d = 0 \<or> routine d = 1" and "0 < B \<or> threshold d \<noteq> 0"
  shows "\<exists>ind keep w.
           calc_ind_keep solver d = Inr (ind, keep) \<and>
           w = working_indices_loop (threshold d) keep [0..<B] \<and>
           calc_disentangle_matrix solver d = Inr (ind, w) \<and>
           length ind = Suc n \<and> length w = Suc n \<and>
           (\<forall>k\<le>n. is_assignment B (ind ! k) \<and> distinct (w ! k) \<and> length (w ! k) = B)"
proof -
  from calc_ind_keep_char [OF assms(1,2,3)] obtain ind keep where
    h: "calc_ind_keep solver d = Inr (ind, keep)" "length ind = Suc n" "length keep = Suc n"
       "\<forall>k\<le>n. is_assignment B (ind ! k) \<and> length (keep ! k) = B"
    by blast
  define w where "w = working_indices_loop (threshold d) keep [0..<B]"
  have d: "length w = Suc n" "\<forall>row\<in>set w. distinct row \<and> length row = B"
    using working_indices_loop_distinct [of "[0..<B]" "threshold d" keep] h(3)
    by (simp_all add: w_def)
  note u = calc_disentangle_matrix_unfold [OF h(1) assms(2), folded w_def]
  have ret: "calc_disentangle_matrix solver d = Inr (ind, w)"
  proof (cases "threshold d = 0")
    case False
    then show ?thesis unfolding u by simp
  next
    case True
    with assms(4) have B: "0 < B" by simp
    have "w = replicate (Suc n) [0..<B]"
      using True h(3) by (simp add: w_def working_indices_loop_zero del: replicate.simps)
    then show ?thesis
      unfolding u using True B np_max_identity_rows [OF B, of n] by (simp del: replicate.simps)
  qed
  have rows: "is_assignment B (ind ! k) \<and> distinct (w ! k) \<and> length (w ! k) = B" if "k \<le> n" for k
  proof -
    have "w ! k \<in> set w" using that d(1) by simp
    then show ?thesis using d(2) h(4) that by simp
  qed
  show ?thesis using h(1,2) ret d(1) rows w_def by blast
qed

subsection \<open>The overlap tensor\<close>

lemma concat_map_upt_uniform:
  assumes "\<And>i. i < n \<Longrightarrow> length (f i) = m"
  shows "length (concat (map f [0..<n])) = n * m \<and>
         (\<forall>i<n. \<forall>j<m. concat (map f [0..<n]) ! (i * m + j) = f i ! j)"
  using assms
proof (induction n)
  case 0
  then show ?case by simp
next
  case (Suc n)
  let ?xs = "concat (map f [0..<n])"
  from Suc have ih: "length ?xs = n * m" "\<forall>i<n. \<forall>j<m. ?xs ! (i * m + j) = f i ! j"
    by simp_all
  have ln: "length (f n) = m" using Suc.prems by simp
  have "(?xs @ f n) ! (i * m + j) = f i ! j" if i: "i < Suc n" and j: "j < m" for i j
  proof (cases "i < n")
    case True
    have "i * m + j < n * m" using idx3_bound [of 0 1 i n j m] True j by simp
    then show ?thesis using ih True j by (simp add: nth_append)
  next
    case False
    then have "i = n" using i by simp
    then show ?thesis using ih(1) j by (simp add: nth_append)
  qed
  then show ?case using ih(1) ln by simp
qed


lemma overlap_items_nth:
  fixes E :: "nat \<Rightarrow> nat \<Rightarrow> nat \<Rightarrow> 'a"
  assumes its: "its = concat (map (\<lambda>i. concat (map (\<lambda>a. map (\<lambda>b. E i a b) [0..<B]) [0..<B])) [0..<n])"
  shows "length its = n * B * B \<and>
         (\<forall>i<n. \<forall>a<B. \<forall>b<B. its ! ((i * B + a) * B + b) = E i a b)"
proof -
  let ?inner = "\<lambda>i. concat (map (\<lambda>a. map (\<lambda>b. E i a b) [0..<B]) [0..<B])"
  have inner: "length (?inner i) = B * B \<and>
               (\<forall>a<B. \<forall>b<B. ?inner i ! (a * B + b) = E i a b)" for i
    using concat_map_upt_uniform [of B "\<lambda>a. map (\<lambda>b. E i a b) [0..<B]" B] by simp
  have outer: "length its = n * (B * B) \<and>
               (\<forall>i<n. \<forall>j<B * B. its ! (i * (B * B) + j) = ?inner i ! j)"
    unfolding its using concat_map_upt_uniform [of n ?inner "B * B"] inner by blast
  have "its ! ((i * B + a) * B + b) = E i a b" if "i < n" "a < B" "b < B" for i a b
  proof -
    have j: "a * B + b < B * B" using idx3_bound [of 0 1 a B b B] that by simp
    have e: "(i * B + a) * B + b = i * (B * B) + (a * B + b)" by (simp add: algebra_simps)
    have "its ! (i * (B * B) + (a * B + b)) = ?inner i ! (a * B + b)"
      using outer that(1) j by blast
    also have "\<dots> = E i a b" using inner [of i] that(2,3) by blast
    finally show ?thesis unfolding e .
  qed
  then show ?thesis using outer by (simp add: mult.assoc)
qed

subsection \<open>The crossing path and the sample data\<close>

lemma crossing_engine_shape: "shape (overlap_matrix (crossing_engine t r)) = [2, 2, 2]"
  by (simp add: crossing_engine_def crossing_overlap_def)

lemma crossing_engine_wf: "wf_ndarray (overlap_matrix (crossing_engine t r))"
  by (simp add: crossing_engine_def crossing_overlap_def wf_ndarray_def)

lemma crossing_slices:
  "map (slice3 crossing_overlap) [0..<2] = [[[0.1, 0.9], [0.9, 0.1]], [[0.9, 0.1], [0.1, 0.9]]]"
  by (simp add: slice3_def at3_def crossing_overlap_def upt_2)

lemma crossing_loop:
  fixes t :: real
  assumes "func [[0.1, 0.9], [0.9, 0.1]] = Inr ([1, 0], [t < 0.9, t < 0.9])"
  shows "ind_keep_loop func [[[0.1, 0.9], [0.9, 0.1]], [[0.9, 0.1], [0.1, 0.9]]] [0, Suc 0] =
           Inr ([[1, 0], [1, 0]], [[t < 0.9, t < 0.9], [t < 0.9, t < 0.9]])"
  using assms by (simp add: take_rows_def)

lemma crossing_ind_keep:
  assumes "lsa_contract solver" "r = 0 \<or> r = 1"
  shows "calc_ind_keep solver (crossing_engine t r) =
           Inr ([[0, 1], [1, 0], [1, 0]],
                [[True, True], [t < 0.9, t < 0.9], [t < 0.9, t < 0.9]])"
proof -
  have sh: "shape crossing_overlap = [2, 2, 2]" by (simp add: crossing_overlap_def)
  obtain func where f: "select_routine solver (crossing_engine t r) = Inr func"
    and f1: "func [[0.1, 0.9], [0.9, 0.1]] = Inr ([1, 0], [t < 0.9, t < 0.9])"
  proof (cases "r = 0")
    case True
    have "linear_sum_approx t [[0.1, 0.9], [0.9, 0.1]] = Inr ([1, 0], [t < 0.9, t < 0.9])"
      by (simp add: linear_sum_approx_def square_def np_argmax_def pop_def upt_2)
    with True show ?thesis
      using that [of "linear_sum_approx t"]
      by (simp add: select_routine_def crossing_engine_def)
  next
    case False
    then have "r = 1" using assms(2) by simp
    moreover have "linear_sum_scipy solver t [[0.1, 0.9], [0.9, 0.1]] =
                     Inr ([1, 0], [t < 0.9, t < 0.9])"
      by (rule linear_sum_scipy_2x2(2) [OF assms(1)]) simp
    ultimately show ?thesis
      using that [of "linear_sum_scipy solver t"]
      by (simp add: select_routine_def crossing_engine_def)
  qed
  have om: "overlap_matrix (crossing_engine t r) = crossing_overlap"
    by (simp add: crossing_engine_def)
  have n: "length (shape crossing_overlap) = 3" "shape crossing_overlap ! 0 = 2"
    "shape crossing_overlap ! 1 = 2" "shape crossing_overlap ! 2 = 2"
    by (simp_all add: sh)
  have lp: "ind_keep_loop func (map (slice3 crossing_overlap) [0..<2]) [0..<2] =
              Inr ([[1, 0], [1, 0]], [[t < 0.9, t < 0.9], [t < 0.9, t < 0.9]])"
    unfolding crossing_slices unfolding upt_2 by (rule crossing_loop [of func t, OF f1])
  have e: "[0..<2] = [0, 1]" "replicate 2 True = [True, True]"
    by (simp_all add: upt_2 numeral_2_eq_2)
  show ?thesis
    unfolding calc_ind_keep_def om Let_def n f sum.case unfolding lp unfolding e by simp
qed

lemma reordered_slice:
  assumes "shape om = [n, B, B]" "is_assignment B prev"
  shows "map (\<lambda>i. slice3 om k ! i) prev =
         map (\<lambda>b. map (\<lambda>c. at3 om k (prev ! b) c) [0..<B]) [0..<B]"
proof (rule nth_equalityI)
  have l: "length prev = B" by (rule is_assignment_length [OF assms(2)])
  show "length (map (\<lambda>i. slice3 om k ! i) prev) =
        length (map (\<lambda>b. map (\<lambda>c. at3 om k (prev ! b) c) [0..<B]) [0..<B])"
    using l by simp
  fix b assume "b < length (map (\<lambda>i. slice3 om k ! i) prev)"
  then have b: "b < B" using l by simp
  then have "prev ! b \<in> set prev" using l by simp
  then have "prev ! b < B" using assms(2) by (simp add: is_assignment_def)
  then show "map (\<lambda>i. slice3 om k ! i) prev ! b =
             map (\<lambda>b. map (\<lambda>c. at3 om k (prev ! b) c) [0..<B]) [0..<B] ! b"
    using b l assms(1) by (simp add: slice3_def)
qed

lemma sample_apply_float64:
  "apply_disentanglement lsa_exhaustive (sample_engine 0 1)
     (Float64 [[[Some 1], [Some 2]], [[Some 3], [Some 4]], [[Some 5], [Some 6]]]) =
     Inr [[[Some 1], [Some 2]], [[Some 3], [Some 4]], [[Some 6], [Some 5]]]"
proof -
  have n: "shape (overlap_matrix (sample_engine 0 1)) ! 1 = 2"
    by (simp add: sample_engine_def sample_overlap_def)
  show ?thesis
    unfolding apply_disentanglement_def
      sample_disentangle_zero [OF lsa_exhaustive_contract, of 1, simplified] n
    by (simp add: np_max_def scatter_row_def)
qed

lemma sample_apply_complex128:
  "apply_disentanglement lsa_exhaustive (sample_engine 0 1)
     (Complex128 [[[\<i>], [1]], [[\<i>], [1]], [[\<i>], [1]]]) =
     Inr [[[Some 0], [Some 1]], [[Some 0], [Some 1]], [[Some 1], [Some 0]]]"
proof -
  have n: "shape (overlap_matrix (sample_engine 0 1)) ! 1 = 2"
    by (simp add: sample_engine_def sample_overlap_def)
  show ?thesis
    unfolding apply_disentanglement_def
      sample_disentangle_zero [OF lsa_exhaustive_contract, of 1, simplified] n
    by (simp add: np_max_def scatter_row_def)
qed

section \<open>The claims\<close>

text \<open>
  Claim C1. For an overlap tensor of shape \<open>(n, B, B)\<close> (so \<open>K = n + 1\<close> k-points),
  either routine and a solver meeting its contract, the first loop of
  \<open>_calc_disentangle_matrix\<close> returns arrays \<open>ind\<close> and \<open>keep\<close> with \<open>K\<close> rows; row 0 is
  the identity, all kept; and for every \<open>k\<close> in \<open>1..K-1\<close> the pair \<open>(ind[k], keep[k])\<close> is
  the output of the routine selected by \<open>routine\<close> on the matrix \<open>M\<close> with
  \<open>M[b, c] = overlap_matrix[k-1, ind[k-1, b], c]\<close>: the slice whose rows are reordered by
  the row of \<open>ind\<close> resolved at the step before. On the crossing path the second step is
  matched on the reordered slice, and its answer differs from the one on the raw slice.
\<close>

theorem disentangle_step_transitive:
  assumes "lsa_contract solver" and "wf_ndarray (overlap_matrix d)"
    and "shape (overlap_matrix d) = [n, B, B]" and "routine d = 0 \<or> routine d = 1"
  shows "\<exists>ind keep.
           calc_ind_keep solver d = Inr (ind, keep) \<and>
           length ind = Suc n \<and> length keep = Suc n \<and>
           ind ! 0 = [0..<B] \<and> keep ! 0 = replicate B True \<and>
           (\<forall>k. 1 \<le> k \<and> k \<le> n \<longrightarrow>
              (let M = map (\<lambda>b. map (\<lambda>c. at3 (overlap_matrix d) (k - 1) (ind ! (k - 1) ! b) c)
                                 [0..<B]) [0..<B]
               in (routine d = 0 \<longrightarrow>
                     linear_sum_approx (threshold d) M = Inr (ind ! k, keep ! k)) \<and>
                  (routine d = 1 \<longrightarrow>
                     linear_sum_scipy solver (threshold d) M = Inr (ind ! k, keep ! k))))"
proof -
  from calc_ind_keep_char [OF assms(1,3,4)] obtain func ind keep where
    h: "select_routine solver d = Inr func" "calc_ind_keep solver d = Inr (ind, keep)"
       "length ind = Suc n" "length keep = Suc n"
       "ind ! 0 = [0..<B]" "keep ! 0 = replicate B True"
       "\<forall>k\<le>n. is_assignment B (ind ! k) \<and> length (keep ! k) = B"
       "\<forall>k<n. \<exists>M. take_rows (slice3 (overlap_matrix d) k) (ind ! k) = Inr M \<and>
                    func M = Inr (ind ! Suc k, keep ! Suc k)"
    by blast
  have f0: "func = linear_sum_approx (threshold d)" if "routine d = 0"
    using h(1) that by (simp add: select_routine_def)
  have f1: "func = linear_sum_scipy solver (threshold d)" if "routine d = 1"
    using h(1) that by (simp add: select_routine_def)
  have "let M = map (\<lambda>b. map (\<lambda>c. at3 (overlap_matrix d) (k - 1) (ind ! (k - 1) ! b) c)
                                 [0..<B]) [0..<B]
        in (routine d = 0 \<longrightarrow> linear_sum_approx (threshold d) M = Inr (ind ! k, keep ! k)) \<and>
           (routine d = 1 \<longrightarrow> linear_sum_scipy solver (threshold d) M = Inr (ind ! k, keep ! k))"
    if "1 \<le> k \<and> k \<le> n" for k
  proof -
    from that obtain j where j: "k = Suc j" "j < n" by (cases k) auto
    have a: "is_assignment B (ind ! j)" using h(7) j(2) by simp
    from h(8) j(2) obtain M where
      M: "take_rows (slice3 (overlap_matrix d) j) (ind ! j) = Inr M"
         "func M = Inr (ind ! Suc j, keep ! Suc j)" by blast
    note sq = slice3_square [OF assms(3), of j]
    from take_rows_assignment(1) [OF conjunct1 [OF sq] conjunct2 [OF sq] a] M(1)
    have "M = map (\<lambda>i. slice3 (overlap_matrix d) j ! i) (ind ! j)" by simp
    then have "M = map (\<lambda>b. map (\<lambda>c. at3 (overlap_matrix d) j (ind ! j ! b) c) [0..<B]) [0..<B]"
      using reordered_slice [OF assms(3) a, of j] by simp
    with M(2) f0 f1 show ?thesis unfolding j(1) Let_def by auto
  qed
  with h(2-6) show ?thesis by blast
qed

theorem disentangle_step_transitive_witness:
  "lsa_contract lsa_exhaustive \<and> wf_ndarray (overlap_matrix (crossing_engine 0 1)) \<and>
   shape (overlap_matrix (crossing_engine 0 1)) = [2, 2, 2] \<and>
   routine (crossing_engine 0 1) = 1 \<and>
   slice3 (overlap_matrix (crossing_engine 0 1)) 1 = [[0.9, 0.1], [0.1, 0.9]] \<and>
   (\<exists>ind keep.
      calc_ind_keep lsa_exhaustive (crossing_engine 0 1) = Inr (ind, keep) \<and>
      ind = [[0, 1], [1, 0], [1, 0]] \<and>
      map (\<lambda>b. map (\<lambda>c. at3 (overlap_matrix (crossing_engine 0 1)) 1 (ind ! 1 ! b) c)
                 [0..<2]) [0..<2] = [[0.1, 0.9], [0.9, 0.1]] \<and>
      linear_sum_scipy lsa_exhaustive 0 [[0.1, 0.9], [0.9, 0.1]] = Inr (ind ! 2, keep ! 2) \<and>
      linear_sum_scipy lsa_exhaustive 0 [[0.9, 0.1], [0.1, 0.9]] = Inr ([0, 1], [True, True]))"
proof -
  let ?d = "crossing_engine 0 1"
  have r: "routine ?d = 0 \<or> routine ?d = 1" and r1: "routine ?d = 1"
    and t: "threshold ?d = 0"
    by (simp_all add: crossing_engine_def)
  from disentangle_step_transitive [OF lsa_exhaustive_contract crossing_engine_wf
      crossing_engine_shape r]
  obtain ind keep where
    h: "calc_ind_keep lsa_exhaustive ?d = Inr (ind, keep)"
       "\<forall>k. 1 \<le> k \<and> k \<le> 2 \<longrightarrow>
          (let M = map (\<lambda>b. map (\<lambda>c. at3 (overlap_matrix ?d) (k - 1) (ind ! (k - 1) ! b) c)
                             [0..<2]) [0..<2]
           in (routine ?d = 0 \<longrightarrow> linear_sum_approx (threshold ?d) M = Inr (ind ! k, keep ! k)) \<and>
              (routine ?d = 1 \<longrightarrow>
                 linear_sum_scipy lsa_exhaustive (threshold ?d) M = Inr (ind ! k, keep ! k)))"
    by blast
  have i: "ind = [[0, 1], [1, 0], [1, 0]]"
    using h(1) crossing_ind_keep [OF lsa_exhaustive_contract, of 1 0] by simp
  have M: "map (\<lambda>b. map (\<lambda>c. at3 (overlap_matrix ?d) 1 (ind ! 1 ! b) c) [0..<2]) [0..<2] =
             [[0.1, 0.9], [0.9, 0.1]]"
    unfolding i by (simp add: at3_def crossing_engine_def crossing_overlap_def upt_2)
  have s: "slice3 (overlap_matrix ?d) 1 = [[0.9, 0.1], [0.1, 0.9]]"
    by (simp add: slice3_def at3_def crossing_engine_def crossing_overlap_def upt_2)
  from h(2) [rule_format, of 2] r1 t
  have "linear_sum_scipy lsa_exhaustive 0
          (map (\<lambda>b. map (\<lambda>c. at3 (overlap_matrix ?d) 1 (ind ! 1 ! b) c) [0..<2]) [0..<2]) =
        Inr (ind ! 2, keep ! 2)"
    by (simp add: Let_def)
  then have step: "linear_sum_scipy lsa_exhaustive 0 [[0.1, 0.9], [0.9, 0.1]] =
                     Inr (ind ! 2, keep ! 2)"
    unfolding M .
  have raw: "linear_sum_scipy lsa_exhaustive 0 [[0.9, 0.1], [0.1, 0.9]] =
               Inr ([0, 1], [True, True])"
    using linear_sum_scipy_2x2(1) [OF lsa_exhaustive_contract, of "0.1" "0.1" "0.9" "0.9" 0]
    by simp
  show ?thesis
    by (intro conjI exI [of _ ind] exI [of _ keep])
      (fact lsa_exhaustive_contract crossing_engine_wf crossing_engine_shape r1 s h(1) i M
        step raw)+
qed

text \<open>
  Claim C3. Under the same conditions every row \<open>ind[k]\<close>, \<open>0 \<le> k \<le> K-1\<close>, of the index
  map has no repeated entry and covers \<open>{0, ..., B-1}\<close>; it is the index map that
  \<open>_calc_disentangle_matrix\<close> returns.
\<close>

theorem index_map_rows_permutations:
  assumes "lsa_contract solver" and "wf_ndarray (overlap_matrix d)"
    and "shape (overlap_matrix d) = [n, B, B]" and "routine d = 0 \<or> routine d = 1"
  shows "\<exists>ind keep.
           calc_ind_keep solver d = Inr (ind, keep) \<and> length ind = Suc n \<and>
           (\<forall>k\<le>n. distinct (ind ! k) \<and> set (ind ! k) = {0..<B}) \<and>
           (\<forall>ind' w. calc_disentangle_matrix solver d = Inr (ind', w) \<longrightarrow> ind' = ind)"
proof -
  from calc_ind_keep_char [OF assms(1,3,4)] obtain ind keep where
    h: "calc_ind_keep solver d = Inr (ind, keep)" "length ind = Suc n"
       "\<forall>k\<le>n. is_assignment B (ind ! k) \<and> length (keep ! k) = B"
    by blast
  have "\<forall>ind' w. calc_disentangle_matrix solver d = Inr (ind', w) \<longrightarrow> ind' = ind"
    using h(1) by (auto simp: calc_disentangle_matrix_def Let_def split: if_splits sum.splits)
  with h show ?thesis by (auto simp: is_assignment_def)
qed

theorem index_map_rows_permutations_witness:
  "lsa_contract lsa_exhaustive \<and> wf_ndarray (overlap_matrix (sample_engine 0 0)) \<and>
   shape (overlap_matrix (sample_engine 0 0)) = [2, 2, 2] \<and>
   routine (sample_engine 0 0) = 0 \<and>
   (\<exists>ind keep.
      calc_ind_keep lsa_exhaustive (sample_engine 0 0) = Inr (ind, keep) \<and> length ind = 3 \<and>
      (\<forall>k\<le>2. distinct (ind ! k) \<and> set (ind ! k) = {0..<2}) \<and>
      (\<forall>ind' w. calc_disentangle_matrix lsa_exhaustive (sample_engine 0 0) = Inr (ind', w) \<longrightarrow>
         ind' = ind))"
proof -
  have r: "routine (sample_engine 0 0) = 0 \<or> routine (sample_engine 0 0) = 1"
    by (simp add: sample_engine_def)
  show ?thesis
    using index_map_rows_permutations [OF lsa_exhaustive_contract sample_engine_wf
        sample_engine_shape r] lsa_exhaustive_contract sample_engine_wf [of 0 0]
      sample_engine_shape [of 0 0]
    by (simp add: sample_engine_def)
qed

text \<open>
  Claim C4 says that with the threshold at exactly 0 every entry of \<open>keep\<close> is True. The
  comparison \<open>matrix[i_b, i_new] > self.threshold\<close> is strict, so a matched overlap of
  exactly 0 (orthogonal wavefunctions) gives False under either routine: here on the tensor
  \<open>[[[0]]]\<close>.
\<close>

theorem keep_mask_zero_threshold_counterexample:
  "calc_ind_keep lsa_exhaustive
     \<lparr>overlap_matrix = \<lparr>shape = [1, 1, 1], items = [0]\<rparr>, threshold = 0, routine = 1\<rparr> =
     Inr ([[0], [0]], [[True], [False]]) \<and>
   calc_ind_keep lsa_exhaustive
     \<lparr>overlap_matrix = \<lparr>shape = [1, 1, 1], items = [0]\<rparr>, threshold = 0, routine = 0\<rparr> =
     Inr ([[0], [0]], [[True], [False]])"
  by (simp add: calc_ind_keep_def select_routine_def slice3_def at3_def take_rows_def
      linear_sum_scipy_def lsa_exhaustive_def linear_sum_approx_def square_def np_argmax_def
      pop_def)

text \<open>
  Claim C4, amended. With the threshold at exactly 0, row 0 of \<open>keep\<close> is all True and an
  entry \<open>keep[k+1, b]\<close> is True exactly when the matched overlap
  \<open>overlap_matrix[k, ind[k, b], ind[k+1, b]]\<close> is strictly positive; in particular every
  entry is True when every item of the overlap tensor is strictly positive.
\<close>

theorem keep_mask_zero_threshold:
  assumes "lsa_contract solver" and "wf_ndarray (overlap_matrix d)"
    and "shape (overlap_matrix d) = [n, B, B]" and "routine d = 0 \<or> routine d = 1"
    and "threshold d = 0"
  shows "\<exists>ind keep.
           calc_ind_keep solver d = Inr (ind, keep) \<and> length keep = Suc n \<and>
           keep ! 0 = replicate B True \<and>
           (\<forall>k<n. \<forall>b<B. keep ! Suc k ! b \<longleftrightarrow>
                      0 < at3 (overlap_matrix d) k (ind ! k ! b) (ind ! Suc k ! b)) \<and>
           ((\<forall>x\<in>set (items (overlap_matrix d)). 0 < x) \<longrightarrow>
              (\<forall>k\<le>n. keep ! k = replicate B True))"
proof -
  from calc_ind_keep_char [OF assms(1,3,4)] obtain ind keep where
    h: "calc_ind_keep solver d = Inr (ind, keep)" "length keep = Suc n"
       "keep ! 0 = replicate B True"
       "\<forall>k\<le>n. is_assignment B (ind ! k) \<and> length (keep ! k) = B"
       "\<forall>k<n. \<forall>b<B. keep ! Suc k ! b \<longleftrightarrow>
                   threshold d < at3 (overlap_matrix d) k (ind ! k ! b) (ind ! Suc k ! b)"
    by blast
  have all: "keep ! k = replicate B True"
    if pos: "\<forall>x\<in>set (items (overlap_matrix d)). 0 < x" and k: "k \<le> n" for k
  proof (cases k)
    case 0
    then show ?thesis using h(3) by simp
  next
    case (Suc j)
    then have j: "j < n" using k by simp
    have "keep ! Suc j ! b" if b: "b < B" for b
    proof -
      have a: "is_assignment B (ind ! j)" "is_assignment B (ind ! Suc j)"
        using h(4) j by simp_all
      have "ind ! j ! b \<in> set (ind ! j)" "ind ! Suc j ! b \<in> set (ind ! Suc j)"
        using a b by (simp_all add: is_assignment_length)
      then have "ind ! j ! b < B" "ind ! Suc j ! b < B"
        using a by (simp_all add: is_assignment_def)
      from at3_in_items [OF assms(2,3) j this] pos h(5) j b assms(5) show ?thesis by simp
    qed
    moreover have "length (keep ! Suc j) = B" using h(4) j by simp
    ultimately show ?thesis unfolding Suc by (intro nth_equalityI) simp_all
  qed
  show ?thesis using h(1,2,3,5) all assms(5) by auto
qed

theorem keep_mask_zero_threshold_witness:
  "lsa_contract lsa_exhaustive \<and> wf_ndarray (overlap_matrix (sample_engine 0 1)) \<and>
   shape (overlap_matrix (sample_engine 0 1)) = [2, 2, 2] \<and>
   routine (sample_engine 0 1) = 1 \<and> threshold (sample_engine 0 1) = 0 \<and>
   (\<exists>ind keep.
      calc_ind_keep lsa_exhaustive (sample_engine 0 1) = Inr (ind, keep) \<and> length keep = 3 \<and>
      keep ! 0 = replicate 2 True \<and> keep ! 1 = replicate 2 True \<and> keep ! 2 = replicate 2 True)"
proof -
  have r: "routine (sample_engine 0 1) = 0 \<or> routine (sample_engine 0 1) = 1"
    and t: "threshold (sample_engine 0 1) = 0"
    by (simp_all add: sample_engine_def)
  have pos: "\<forall>x\<in>set (items (overlap_matrix (sample_engine 0 1))). 0 < x"
    by (simp add: sample_engine_def sample_overlap_def)
  from keep_mask_zero_threshold [OF lsa_exhaustive_contract sample_engine_wf
      sample_engine_shape r t] pos
  obtain ind keep where
    "calc_ind_keep lsa_exhaustive (sample_engine 0 1) = Inr (ind, keep)" "length keep = 3"
    "\<forall>k\<le>2. keep ! k = replicate 2 True"
    by auto
  then show ?thesis
    using lsa_exhaustive_contract sample_engine_wf [of 0 1] sample_engine_shape [of 0 1] r t
    by (auto simp: sample_engine_def)
qed

text \<open>
  Claim C6. For a fixed overlap tensor and routine and thresholds \<open>t1 \<le> t2\<close>, the index
  map is the same under both thresholds, and every entry of \<open>keep\<close> that is False under
  \<open>t1\<close> is False under \<open>t2\<close>.
\<close>

theorem keep_mask_antitone:
  assumes "lsa_contract solver" and "wf_ndarray (overlap_matrix d)"
    and "shape (overlap_matrix d) = [n, B, B]" and "routine d = 0 \<or> routine d = 1"
    and "t1 \<le> t2"
  shows "\<exists>ind keep1 keep2.
           calc_ind_keep solver (d\<lparr>threshold := t1\<rparr>) = Inr (ind, keep1) \<and>
           calc_ind_keep solver (d\<lparr>threshold := t2\<rparr>) = Inr (ind, keep2) \<and>
           length keep1 = Suc n \<and> length keep2 = Suc n \<and>
           (\<forall>k\<le>n. length (keep1 ! k) = B \<and> length (keep2 ! k) = B \<and>
              (\<forall>b<B. \<not> keep1 ! k ! b \<longrightarrow> \<not> keep2 ! k ! b))"
proof -
  let ?d1 = "d\<lparr>threshold := t1\<rparr>" and ?d2 = "d\<lparr>threshold := t2\<rparr>"
  have s1: "shape (overlap_matrix ?d1) = [n, B, B]" and r1: "routine ?d1 = 0 \<or> routine ?d1 = 1"
    and s2: "shape (overlap_matrix ?d2) = [n, B, B]" and r2: "routine ?d2 = 0 \<or> routine ?d2 = 1"
    using assms(3,4) by simp_all
  from calc_ind_keep_char [OF assms(1) s1 r1] obtain ind keep1 where
    h1: "calc_ind_keep solver ?d1 = Inr (ind, keep1)" "length keep1 = Suc n"
        "keep1 ! 0 = replicate B True"
        "\<forall>k\<le>n. is_assignment B (ind ! k) \<and> length (keep1 ! k) = B"
        "\<forall>k<n. \<forall>b<B. keep1 ! Suc k ! b \<longleftrightarrow>
                   t1 < at3 (overlap_matrix d) k (ind ! k ! b) (ind ! Suc k ! b)"
    by auto
  from calc_ind_keep_char [OF assms(1) s2 r2] obtain ind2 keep2 where
    h2: "calc_ind_keep solver ?d2 = Inr (ind2, keep2)" "length keep2 = Suc n"
        "keep2 ! 0 = replicate B True"
        "\<forall>k\<le>n. is_assignment B (ind2 ! k) \<and> length (keep2 ! k) = B"
        "\<forall>k<n. \<forall>b<B. keep2 ! Suc k ! b \<longleftrightarrow>
                   t2 < at3 (overlap_matrix d) k (ind2 ! k ! b) (ind2 ! Suc k ! b)"
    by auto
  from calc_ind_keep_indep [OF h1(1), of t2] h2(1) have same: "ind2 = ind" by simp
  have "length (keep1 ! k) = B \<and> length (keep2 ! k) = B \<and>
        (\<forall>b<B. \<not> keep1 ! k ! b \<longrightarrow> \<not> keep2 ! k ! b)" if k: "k \<le> n" for k
  proof (cases k)
    case 0
    then show ?thesis using h1(3) h2(3) by simp
  next
    case (Suc j)
    then have "j < n" using k by simp
    then show ?thesis using h1(4,5) h2(4,5) k assms(5) unfolding same Suc by fastforce
  qed
  then show ?thesis using h1(1,2) h2(1,2) unfolding same by blast
qed

theorem keep_mask_antitone_witness:
  "lsa_contract lsa_exhaustive \<and> wf_ndarray (overlap_matrix (sample_engine 0 1)) \<and>
   shape (overlap_matrix (sample_engine 0 1)) = [2, 2, 2] \<and>
   routine (sample_engine 0 1) = 1 \<and> (1/2 :: real) \<le> 0.92 \<and>
   (\<exists>ind keep1 keep2.
      calc_ind_keep lsa_exhaustive (sample_engine (1/2) 1) = Inr (ind, keep1) \<and>
      calc_ind_keep lsa_exhaustive (sample_engine 0.92 1) = Inr (ind, keep2) \<and>
      length keep1 = 3 \<and> length keep2 = 3 \<and>
      (\<forall>k\<le>2. length (keep1 ! k) = 2 \<and> length (keep2 ! k) = 2 \<and>
         (\<forall>b<2. \<not> keep1 ! k ! b \<longrightarrow> \<not> keep2 ! k ! b)))"
proof -
  have r: "routine (sample_engine 0 1) = 0 \<or> routine (sample_engine 0 1) = 1"
    by (simp add: sample_engine_def)
  have le: "(1/2 :: real) \<le> 0.92" by simp
  show ?thesis
    using keep_mask_antitone [OF lsa_exhaustive_contract sample_engine_wf
        sample_engine_shape r le] lsa_exhaustive_contract sample_engine_wf [of 0 1]
      sample_engine_shape [of 0 1]
    by (simp add: sample_engine_def)
qed

text \<open>
  Claim C5 says that for every overlap tensor with the threshold at exactly 0 the working
  indices satisfy \<open>max + 1 = B\<close>. With no band (\<open>B = 0\<close>) the array \<open>working_indices\<close> is
  empty and \<open>np.max\<close> in the guarding \<open>assert\<close> raises \<open>ValueError\<close>: no working-index map
  is computed.
\<close>

theorem zero_threshold_no_growth_counterexample:
  "calc_disentangle_matrix lsa_exhaustive
     \<lparr>overlap_matrix = \<lparr>shape = [1, 0, 0], items = []\<rparr>, threshold = 0, routine = 1\<rparr> =
     Inl ValueError \<and>
   calc_disentangle_matrix lsa_exhaustive
     \<lparr>overlap_matrix = \<lparr>shape = [1, 0, 0], items = []\<rparr>, threshold = 0, routine = 0\<rparr> =
     Inl ValueError"
  by (simp add: calc_disentangle_matrix_def calc_ind_keep_def select_routine_def slice3_def
      take_rows_def linear_sum_scipy_def lsa_exhaustive_def linear_sum_approx_def square_def
      retire_row_def np_max_def)

text \<open>
  Claim C5, amended. For every overlap tensor with at least one band, when the threshold is
  exactly 0 \<open>_calc_disentangle_matrix\<close> returns, every row of \<open>working_indices\<close> is the
  identity \<open>0..B-1\<close> (no slot is ever allocated) and \<open>np.max(working_indices) + 1 = B\<close>, so
  the assertion holds.
\<close>

theorem zero_threshold_no_growth:
  assumes "lsa_contract solver" and "wf_ndarray (overlap_matrix d)"
    and "shape (overlap_matrix d) = [n, B, B]" and "routine d = 0 \<or> routine d = 1"
    and "threshold d = 0" and "0 < B"
  shows "\<exists>ind w m.
           calc_disentangle_matrix solver d = Inr (ind, w) \<and>
           w = replicate (Suc n) [0..<B] \<and>
           np_max (concat w) = Inr m \<and> m + 1 = B"
proof -
  from calc_ind_keep_char [OF assms(1,3,4)] obtain ind keep where
    h: "calc_ind_keep solver d = Inr (ind, keep)" "length keep = Suc n"
    by blast
  have w: "working_indices_loop (threshold d) keep [0..<B] = replicate (Suc n) [0..<B]"
    using assms(5) h(2) by (simp add: working_indices_loop_zero del: replicate.simps)
  have m: "np_max (concat (replicate (Suc n) [0..<B])) = Inr (B - 1)"
    by (rule np_max_identity_rows [OF assms(6)])
  have "calc_disentangle_matrix solver d = Inr (ind, replicate (Suc n) [0..<B])"
    unfolding calc_disentangle_matrix_unfold [OF h(1) assms(3)] w
    using assms(5,6) m by (simp del: replicate.simps)
  with m assms(6) show ?thesis by (auto simp del: replicate.simps)
qed

theorem zero_threshold_no_growth_witness:
  "lsa_contract lsa_exhaustive \<and> wf_ndarray (overlap_matrix (sample_engine 0 1)) \<and>
   shape (overlap_matrix (sample_engine 0 1)) = [2, 2, 2] \<and>
   routine (sample_engine 0 1) = 1 \<and> threshold (sample_engine 0 1) = 0 \<and> (0::nat) < 2 \<and>
   (\<exists>ind w m.
      calc_disentangle_matrix lsa_exhaustive (sample_engine 0 1) = Inr (ind, w) \<and>
      w = [[0, 1], [0, 1], [0, 1]] \<and> np_max (concat w) = Inr m \<and> m + 1 = 2)"
proof -
  have r: "routine (sample_engine 0 1) = 0 \<or> routine (sample_engine 0 1) = 1"
    and t: "threshold (sample_engine 0 1) = 0"
    by (simp_all add: sample_engine_def)
  have B: "(0::nat) < 2" by simp
  have e: "replicate (Suc 2) [0..<2] = [[0, 1], [0, 1], [0, 1::nat]]"
    by (simp add: numeral_3_eq_3 upt_rec)
  show ?thesis
    using zero_threshold_no_growth [OF lsa_exhaustive_contract sample_engine_wf
        sample_engine_shape r t B] lsa_exhaustive_contract sample_engine_wf [of 0 1]
      sample_engine_shape [of 0 1] r t
    unfolding e by (simp add: sample_engine_def)
qed

text \<open>
  Claim C10. For every overlap tensor, either routine and every threshold, each row of the
  array \<open>working_indices\<close> built by the second loop has \<open>B\<close> pairwise distinct entries, and
  this array is the one \<open>_calc_disentangle_matrix\<close> returns (it returns whenever
  \<open>B > 0\<close> or the threshold is not 0). A retired track gets a slot strictly greater
  than every slot in use. So the index row of the scatter write of
  \<open>_apply_disentanglement\<close> never names a slot twice.
\<close>

theorem working_index_rows_distinct:
  assumes "lsa_contract solver" and "wf_ndarray (overlap_matrix d)"
    and "shape (overlap_matrix d) = [n, B, B]" and "routine d = 0 \<or> routine d = 1"
  shows "\<exists>ind keep w.
           calc_ind_keep solver d = Inr (ind, keep) \<and>
           w = working_indices_loop (threshold d) keep [0..<B] \<and>
           length w = Suc n \<and>
           (\<forall>row\<in>set w. distinct row \<and> length row = B) \<and>
           (\<forall>ind' w'. calc_disentangle_matrix solver d = Inr (ind', w') \<longrightarrow> w' = w) \<and>
           (0 < B \<or> threshold d \<noteq> 0 \<longrightarrow> calc_disentangle_matrix solver d = Inr (ind, w)) \<and>
           (\<forall>tmp keep_row i. i < length tmp \<and> \<not> keep_row ! i \<and> threshold d \<noteq> 0 \<longrightarrow>
              (\<forall>x\<in>set tmp. x < retire_step (threshold d) keep_row i tmp ! i))"
proof -
  from calc_ind_keep_char [OF assms(1,3,4)] obtain ind keep where
    h: "calc_ind_keep solver d = Inr (ind, keep)" "length keep = Suc n"
    by blast
  define w where "w = working_indices_loop (threshold d) keep [0..<B]"
  have d: "length w = Suc n" "\<forall>row\<in>set w. distinct row \<and> length row = B"
    using working_indices_loop_distinct [of "[0..<B]" "threshold d" keep] h(2)
    by (simp_all add: w_def)
  note u = calc_disentangle_matrix_unfold [OF h(1) assms(3), folded w_def]
  have only: "\<forall>ind' w'. calc_disentangle_matrix solver d = Inr (ind', w') \<longrightarrow> w' = w"
    unfolding u by (auto split: if_splits sum.splits)
  have ret: "calc_disentangle_matrix solver d = Inr (ind, w)" if "0 < B \<or> threshold d \<noteq> 0"
  proof (cases "threshold d = 0")
    case False
    then show ?thesis unfolding u by simp
  next
    case True
    with that have B: "0 < B" by simp
    have "w = replicate (Suc n) [0..<B]"
      using True h(2) by (simp add: w_def working_indices_loop_zero del: replicate.simps)
    then show ?thesis
      unfolding u using True B np_max_identity_rows [OF B, of n] by (simp del: replicate.simps)
  qed
  have fresh: "\<forall>tmp keep_row i. i < length tmp \<and> \<not> keep_row ! i \<and> threshold d \<noteq> 0 \<longrightarrow>
              (\<forall>x\<in>set tmp. x < retire_step (threshold d) keep_row i tmp ! i)"
    using retire_step_fresh by blast
  show ?thesis
    using h(1) d only ret fresh w_def by blast
qed

theorem working_index_rows_distinct_witness:
  "lsa_contract lsa_exhaustive \<and> wf_ndarray (overlap_matrix (sample_engine 0.92 0)) \<and>
   shape (overlap_matrix (sample_engine 0.92 0)) = [2, 2, 2] \<and>
   routine (sample_engine 0.92 0) = 0 \<and>
   (\<exists>ind keep w.
      calc_ind_keep lsa_exhaustive (sample_engine 0.92 0) = Inr (ind, keep) \<and>
      w = working_indices_loop 0.92 keep [0..<2] \<and> length w = 3 \<and>
      (\<forall>row\<in>set w. distinct row \<and> length row = 2) \<and>
      calc_disentangle_matrix lsa_exhaustive (sample_engine 0.92 0) = Inr (ind, w))"
proof -
  have r: "routine (sample_engine 0.92 0) = 0 \<or> routine (sample_engine 0.92 0) = 1"
    by (simp add: sample_engine_def)
  show ?thesis
    using working_index_rows_distinct [OF lsa_exhaustive_contract sample_engine_wf
        sample_engine_shape r] lsa_exhaustive_contract sample_engine_wf [of "0.92" 0]
      sample_engine_shape [of "0.92" 0]
    by (simp add: sample_engine_def) blast
qed

text \<open>
  Claim C8 says that on the sample path with the threshold forced to 0 the working-index
  map equals the index map. The index map follows the crossing at the last step, while
  with the threshold at 0 no track is retired and every row of \<open>working_indices\<close> stays
  the identity: the two arrays differ in their last row.
\<close>

theorem sample_path_counterexample:
  "calc_disentangle_matrix lsa_exhaustive (sample_engine 0 1) =
     Inr ([[0, 1], [0, 1], [1, 0]], [[0, 1], [0, 1], [0, 1]]) \<and>
   [[0, 1], [0, 1], [0, 1]] \<noteq> [[0, 1], [0, 1], [1, 0 :: nat]]"
  using sample_disentangle_zero [OF lsa_exhaustive_contract, of 1] by simp

text \<open>
  Claim C8, amended. On the sample path with the threshold forced to 0, under either
  routine, the index map is \<open>[[0,1],[0,1],[1,0]]\<close>, every entry of \<open>keep\<close> is True, and
  the working-index map is \<open>[[0,1],[0,1],[0,1]]\<close>: every row the identity, no growth, its
  maximum 1.
\<close>

theorem sample_path_zero_threshold:
  assumes "lsa_contract solver" and "r = 0 \<or> r = 1"
  shows "calc_ind_keep solver (sample_engine 0 r) =
           Inr ([[0, 1], [0, 1], [1, 0]], [[True, True], [True, True], [True, True]]) \<and>
         calc_disentangle_matrix solver (sample_engine 0 r) =
           Inr ([[0, 1], [0, 1], [1, 0]], [[0, 1], [0, 1], [0, 1]]) \<and>
         np_max (concat [[0, 1], [0, 1], [0, 1]]) = Inr 1"
  using sample_ind_keep [OF assms, of 0] sample_disentangle_zero [OF assms]
  by (simp add: np_max_def)

theorem sample_path_zero_threshold_witness:
  "lsa_contract lsa_exhaustive \<and>
   calc_ind_keep lsa_exhaustive (sample_engine 0 1) =
     Inr ([[0, 1], [0, 1], [1, 0]], [[True, True], [True, True], [True, True]]) \<and>
   calc_disentangle_matrix lsa_exhaustive (sample_engine 0 1) =
     Inr ([[0, 1], [0, 1], [1, 0]], [[0, 1], [0, 1], [0, 1]]) \<and>
   np_max (concat [[0, 1], [0, 1], [0, 1]]) = Inr 1"
  using sample_path_zero_threshold [OF lsa_exhaustive_contract, of 1] lsa_exhaustive_contract
  by simp

text \<open>
  Claim C2 says that applying the engine returns, for every data array whose first two
  axes are \<open>(K, B)\<close>, an array holding the data items, and that a kept position reads back
  its original value. Three things stand against it. With no band (\<open>B = 0\<close>) the index maps
  are computed (two empty rows here), but \<open>np.max(working_indices)\<close> in
  \<open>_apply_disentanglement\<close> is taken of a zero-size array and raises \<open>ValueError\<close>. The
  read-back of a kept position is through the two maps and not at the position itself: on
  the sample path every entry of \<open>keep\<close> is True, and the last row \<open>[5, 6]\<close> of the data
  comes back as \<open>[6, 5]\<close>. And the result is a \<open>float64\<close> array, so complex data come back
  without their imaginary part: \<open>\<i>\<close> comes back as 0.
\<close>

theorem apply_disentanglement_counterexample:
  "calc_disentangle_matrix lsa_exhaustive
     \<lparr>overlap_matrix = \<lparr>shape = [1, 0, 0], items = []\<rparr>, threshold = 1, routine = 1\<rparr> =
     Inr ([[], []], [[], []]) \<and>
   apply_disentanglement lsa_exhaustive
     \<lparr>overlap_matrix = \<lparr>shape = [1, 0, 0], items = []\<rparr>, threshold = 1, routine = 1\<rparr>
     (Float64 [[], []]) = Inl ValueError \<and>
   calc_ind_keep lsa_exhaustive (sample_engine 0 1) =
     Inr ([[0, 1], [0, 1], [1, 0]], [[True, True], [True, True], [True, True]]) \<and>
   apply_disentanglement lsa_exhaustive (sample_engine 0 1)
     (Float64 [[[Some 1], [Some 2]], [[Some 3], [Some 4]], [[Some 5], [Some 6]]]) =
     Inr [[[Some 1], [Some 2]], [[Some 3], [Some 4]], [[Some 6], [Some 5]]] \<and>
   apply_disentanglement lsa_exhaustive (sample_engine 0 1)
     (Complex128 [[[\<i>], [1]], [[\<i>], [1]], [[\<i>], [1]]]) =
     Inr [[[Some 0], [Some 1]], [[Some 0], [Some 1]], [[Some 1], [Some 0]]]"
proof -
  have "calc_ind_keep lsa_exhaustive (sample_engine 0 1) =
          Inr ([[0, 1], [0, 1], [1, 0]], [[True, True], [True, True], [True, True]])"
    using sample_ind_keep [OF lsa_exhaustive_contract, of 1 0] by simp
  then show ?thesis
    using sample_apply_float64 sample_apply_complex128
    by (simp add: apply_disentanglement_def calc_disentangle_matrix_def calc_ind_keep_def
        select_routine_def slice3_def take_rows_def linear_sum_scipy_def lsa_exhaustive_def
        square_def retire_row_def np_max_def)
qed

text \<open>
  Claim C2, amended. For every overlap tensor with at least one band and every \<open>float64\<close>
  data array whose first two axes are \<open>(K, B)\<close>, \<open>_apply_disentanglement\<close> returns an array
  with \<open>K\<close> rows of \<open>max(working_indices) + 1\<close> slots, with
  \<open>out[k, working_indices[k, b], ...] = data[k, ind[k, b], ...]\<close> for every \<open>(k, b)\<close> and every
  other slot NaN; so for the raw energy array, which has no NaN, every \<open>(k, b)\<close> where
  \<open>keep\<close> is True reads back at slot \<open>working_indices[k, b]\<close> the original value
  \<open>data[k, ind[k, b]]\<close>, which is not NaN.
\<close>

theorem apply_disentanglement_scatter:
  assumes "lsa_contract solver" and "wf_ndarray (overlap_matrix d)"
    and "shape (overlap_matrix d) = [n, B, B]" and "routine d = 0 \<or> routine d = 1"
    and "0 < B" and "length xs = Suc n" and "\<forall>r\<in>set xs. length r = B"
    and "\<forall>r\<in>set xs. \<forall>c\<in>set r. length c = T"
  shows "\<exists>ind keep w m out.
           calc_ind_keep solver d = Inr (ind, keep) \<and>
           calc_disentangle_matrix solver d = Inr (ind, w) \<and>
           np_max (concat w) = Inr m \<and>
           apply_disentanglement solver d (Float64 xs) = Inr out \<and>
           length out = Suc n \<and>
           (\<forall>k\<le>n. length (out ! k) = m + 1 \<and>
              (\<forall>b<B. out ! k ! (w ! k ! b) = xs ! k ! (ind ! k ! b)) \<and>
              (\<forall>j<m + 1. j \<notin> set (w ! k) \<longrightarrow> out ! k ! j = replicate T None)) \<and>
           ((\<forall>r\<in>set xs. \<forall>c\<in>set r. None \<notin> set c) \<longrightarrow>
              (\<forall>k\<le>n. \<forall>b<B. keep ! k ! b \<longrightarrow>
                 out ! k ! (w ! k ! b) = xs ! k ! (ind ! k ! b) \<and>
                 None \<notin> set (out ! k ! (w ! k ! b))))"
proof -
  from calc_disentangle_matrix_total [OF assms(1,3,4)] assms(5) obtain ind keep w where
    h: "calc_ind_keep solver d = Inr (ind, keep)"
       "calc_disentangle_matrix solver d = Inr (ind, w)"
       "length ind = Suc n" "length w = Suc n"
       "\<forall>k\<le>n. is_assignment B (ind ! k) \<and> distinct (w ! k) \<and> length (w ! k) = B"
    by blast
  have "w ! 0 \<in> set w" using h(4) by simp
  moreover have "w ! 0 \<noteq> []" using h(5) assms(5) by auto
  ultimately have ne: "concat w \<noteq> []" by auto
  define m where "m = Max (set (concat w))"
  have m: "np_max (concat w) = Inr m" using ne by (simp add: np_max_def m_def)
  have x0: "xs ! 0 \<in> set xs" using assms(6) by simp
  then have "length (xs ! 0) = B" using assms(7) by simp
  then have "xs ! 0 ! 0 \<in> set (xs ! 0)" using assms(5) by simp
  then have T: "length (xs ! 0 ! 0) = T" using assms(8) x0 by simp
  define out0 :: "real option list list" where "out0 = replicate (m + 1) (replicate T None)"
  have l0: "length out0 = m + 1" and n0: "\<forall>j<m + 1. out0 ! j = replicate T None"
    by (simp_all add: out0_def del: replicate.simps)
  define out where
    "out = map (\<lambda>i_k. scatter_row out0 (w ! i_k) (map (\<lambda>j. xs ! i_k ! j) (ind ! i_k)))
             [0..<Suc n]"
  have ap: "apply_disentanglement solver d (Float64 xs) = Inr out"
    using h(2,4) assms(3,6,7) m T
    by (simp add: apply_disentanglement_def out_def out0_def Let_def del: replicate.simps)
  have rows: "length (out ! k) = m + 1 \<and>
              (\<forall>b<B. out ! k ! (w ! k ! b) = xs ! k ! (ind ! k ! b)) \<and>
              (\<forall>j<m + 1. j \<notin> set (w ! k) \<longrightarrow> out ! k ! j = replicate T None)" if k: "k \<le> n" for k
  proof -
    let ?vals = "map (\<lambda>j. xs ! k ! j) (ind ! k)"
    have ok: "out ! k = scatter_row out0 (w ! k) ?vals"
      using k unfolding out_def by (simp del: upt_Suc)
    have r: "is_assignment B (ind ! k)" "distinct (w ! k)" "length (w ! k) = B"
      using h(5) k by simp_all
    have li: "length (ind ! k) = B" by (rule is_assignment_length [OF r(1)])
    have wk: "w ! k \<in> set w" using k h(4) by simp
    have bound: "\<forall>x\<in>set (w ! k). x < length out0"
    proof
      fix x assume "x \<in> set (w ! k)"
      then have "x \<in> set (concat w)" using wk by auto
      then have "x \<le> m" unfolding m_def by simp
      then show "x < length out0" unfolding l0 by simp
    qed
    have lv: "length (w ! k) = length ?vals" using r(3) li by simp
    note sc = scatter_row_nth [OF r(2) lv bound]
    have s: "length (scatter_row out0 (w ! k) ?vals) = m + 1"
         "\<forall>b<B. scatter_row out0 (w ! k) ?vals ! (w ! k ! b) = ?vals ! b"
         "\<forall>j<m + 1. j \<notin> set (w ! k) \<longrightarrow> scatter_row out0 (w ! k) ?vals ! j = replicate T None"
      using sc l0 n0 r(3) by simp_all
    show ?thesis unfolding ok using s li by simp
  qed
  have kept: "out ! k ! (w ! k ! b) = xs ! k ! (ind ! k ! b) \<and>
              None \<notin> set (out ! k ! (w ! k ! b))"
    if nn: "\<forall>r\<in>set xs. \<forall>c\<in>set r. None \<notin> set c" and k: "k \<le> n" and b: "b < B" for k b
  proof -
    have e: "out ! k ! (w ! k ! b) = xs ! k ! (ind ! k ! b)" using rows [OF k] b by simp
    have a: "is_assignment B (ind ! k)" using h(5) k by simp
    then have "ind ! k ! b \<in> set (ind ! k)" using b by (simp add: is_assignment_length)
    then have i: "ind ! k ! b < B" using a by (simp add: is_assignment_def)
    have xk: "xs ! k \<in> set xs" using k assms(6) by simp
    then have "length (xs ! k) = B" using assms(7) by simp
    then have "xs ! k ! (ind ! k ! b) \<in> set (xs ! k)" using i by simp
    then have "None \<notin> set (xs ! k ! (ind ! k ! b))" using nn xk by blast
    then show ?thesis using e by simp
  qed
  have lo: "length out = Suc n" by (simp add: out_def)
  show ?thesis
    using h(1,2) m ap lo rows kept
    by (intro exI [of _ ind] exI [of _ keep] exI [of _ w] exI [of _ m] exI [of _ out]) blast
qed


theorem apply_disentanglement_scatter_witness:
  "lsa_contract lsa_exhaustive \<and> wf_ndarray (overlap_matrix (sample_engine 0.92 0)) \<and>
   shape (overlap_matrix (sample_engine 0.92 0)) = [2, 2, 2] \<and>
   routine (sample_engine 0.92 0) = 0 \<and> (0::nat) < 2 \<and>
   length [[[Some 1], [Some 2]], [[Some 3], [Some 4]], [[Some 5], [Some (6 :: real)]]] = 3 \<and>
   (\<exists>ind keep w m out.
      calc_ind_keep lsa_exhaustive (sample_engine 0.92 0) = Inr (ind, keep) \<and>
      calc_disentangle_matrix lsa_exhaustive (sample_engine 0.92 0) = Inr (ind, w) \<and>
      np_max (concat w) = Inr m \<and>
      apply_disentanglement lsa_exhaustive (sample_engine 0.92 0)
        (Float64 [[[Some 1], [Some 2]], [[Some 3], [Some 4]], [[Some 5], [Some 6]]]) = Inr out \<and>
      length out = 3 \<and>
      (\<forall>k\<le>2. length (out ! k) = m + 1 \<and>
         (\<forall>b<2. out ! k ! (w ! k ! b) =
            [[[Some 1], [Some 2]], [[Some 3], [Some 4]], [[Some 5], [Some 6]]] ! k ! (ind ! k ! b)) \<and>
         (\<forall>j<m + 1. j \<notin> set (w ! k) \<longrightarrow> out ! k ! j = replicate 1 None)) \<and>
      (\<forall>k\<le>2. \<forall>b<2. keep ! k ! b \<longrightarrow> None \<notin> set (out ! k ! (w ! k ! b))))"
proof -
  let ?xs = "[[[Some 1], [Some 2]], [[Some 3], [Some 4]], [[Some 5], [Some (6 :: real)]]]"
  have r: "routine (sample_engine 0.92 0) = 0 \<or> routine (sample_engine 0.92 0) = 1"
    and r0: "routine (sample_engine 0.92 0) = 0"
    by (simp_all add: sample_engine_def)
  have B: "(0::nat) < 2" by simp
  have l: "length ?xs = Suc 2" and l3: "length ?xs = 3" by simp_all
  have rw: "\<forall>r\<in>set ?xs. length r = 2" by simp
  have bl: "\<forall>r\<in>set ?xs. \<forall>c\<in>set r. length c = 1" by simp
  have nn: "\<forall>r\<in>set ?xs. \<forall>c\<in>set r. None \<notin> set c" by simp
  from apply_disentanglement_scatter [OF lsa_exhaustive_contract sample_engine_wf
      sample_engine_shape r B l rw bl] nn
  obtain ind keep w m out where
    h: "calc_ind_keep lsa_exhaustive (sample_engine 0.92 0) = Inr (ind, keep)"
    "calc_disentangle_matrix lsa_exhaustive (sample_engine 0.92 0) = Inr (ind, w)"
    "np_max (concat w) = Inr m"
    "apply_disentanglement lsa_exhaustive (sample_engine 0.92 0) (Float64 ?xs) = Inr out"
    "length out = 3"
    "\<forall>k\<le>2. length (out ! k) = m + 1 \<and>
       (\<forall>b<2. out ! k ! (w ! k ! b) = ?xs ! k ! (ind ! k ! b)) \<and>
       (\<forall>j<m + 1. j \<notin> set (w ! k) \<longrightarrow> out ! k ! j = replicate 1 None)"
    "\<forall>k\<le>2. \<forall>b<2. keep ! k ! b \<longrightarrow> None \<notin> set (out ! k ! (w ! k ! b))"
    by (auto simp: numeral_3_eq_3)
  show ?thesis
    by (intro conjI exI [of _ ind] exI [of _ keep] exI [of _ w] exI [of _ m] exI [of _ out])
      (fact lsa_exhaustive_contract sample_engine_wf sample_engine_shape r0 B l3 h)+
qed

text \<open>
  Claim C9. \<open>_calc_overlap_matrix\<close> fails with an \<open>AssertionError\<close> when the wavefunction
  array does not have exactly three axes or has fewer than two k-points. On an array of
  shape \<open>(K, B, C)\<close> with \<open>K \<ge> 2\<close> it returns a well-formed array of shape
  \<open>(K-1, B, B)\<close> whose entry \<open>[i, a, b]\<close> is the magnitude of the inner product of
  \<open>wavefunction[i, a, :]\<close> with the complex conjugate of \<open>wavefunction[i+1, b, :]\<close>.
\<close>

theorem calc_overlap_matrix_spec:
  assumes "wf_ndarray w"
  shows "(length (shape w) \<noteq> 3 \<longrightarrow> calc_overlap_matrix w = Inl AssertionError) \<and>
         (length (shape w) = 3 \<and> shape w ! 0 < 2 \<longrightarrow> calc_overlap_matrix w = Inl AssertionError) \<and>
         (\<forall>K B C. shape w = [K, B, C] \<and> 2 \<le> K \<longrightarrow>
            (\<exists>om. calc_overlap_matrix w = Inr om \<and> shape om = [K - 1, B, B] \<and>
                  wf_ndarray om \<and>
                  (\<forall>i<K - 1. \<forall>a<B. \<forall>b<B.
                     at3 om i a b =
                       cmod (\<Sum>c\<leftarrow>[0..<C]. at3 w i a c * cnj (at3 w (i + 1) b c)))))"
proof (intro conjI allI impI)
  show "calc_overlap_matrix w = Inl AssertionError" if "length (shape w) \<noteq> 3"
    using that by (simp add: calc_overlap_matrix_def)
  show "calc_overlap_matrix w = Inl AssertionError" if "length (shape w) = 3 \<and> shape w ! 0 < 2"
    using that by (auto simp: calc_overlap_matrix_def Let_def)
next
  fix K B C assume s: "shape w = [K, B, C] \<and> 2 \<le> K"
  define om where
    "om = \<lparr>shape = [K - 1, B, B],
           items = concat (map (\<lambda>i. concat (map (\<lambda>a. map (\<lambda>b. overlap_entry w i a b)
                             [0..<B]) [0..<B])) [0..<K - 1])\<rparr>"
  have r: "calc_overlap_matrix w = Inr om"
    using s by (simp add: calc_overlap_matrix_def om_def)
  have n: "length (items om) = (K - 1) * B * B \<and>
           (\<forall>i<K - 1. \<forall>a<B. \<forall>b<B. items om ! ((i * B + a) * B + b) = overlap_entry w i a b)"
    by (rule overlap_items_nth) (simp add: om_def)
  have wf: "wf_ndarray om" using n by (simp add: wf_ndarray_def om_def)
  have "at3 om i a b = cmod (\<Sum>c\<leftarrow>[0..<C]. at3 w i a c * cnj (at3 w (i + 1) b c))"
    if "i < K - 1" "a < B" "b < B" for i a b
  proof -
    have "at3 om i a b = overlap_entry w i a b"
      using n that by (simp add: at3_def om_def)
    then show ?thesis using s by (simp add: overlap_entry_def)
  qed
  then show "\<exists>om. calc_overlap_matrix w = Inr om \<and> shape om = [K - 1, B, B] \<and>
                  wf_ndarray om \<and>
                  (\<forall>i<K - 1. \<forall>a<B. \<forall>b<B.
                     at3 om i a b =
                       cmod (\<Sum>c\<leftarrow>[0..<C]. at3 w i a c * cnj (at3 w (i + 1) b c)))"
    using r wf by (intro exI [of _ om]) (simp add: om_def)
qed

theorem calc_overlap_matrix_spec_witness:
  "wf_ndarray \<lparr>shape = [2, 1, 1], items = [1, \<i>]\<rparr> \<and>
   (\<exists>om. calc_overlap_matrix \<lparr>shape = [2, 1, 1], items = [1, \<i>]\<rparr> = Inr om \<and>
         shape om = [1, 1, 1] \<and> at3 om 0 0 0 = 1)"
proof -
  let ?w = "\<lparr>shape = [2, 1, 1], items = [1, \<i>]\<rparr> :: complex ndarray"
  have wf: "wf_ndarray ?w" by (simp add: wf_ndarray_def)
  from calc_overlap_matrix_spec [OF wf] have
    "\<forall>K B C. shape ?w = [K, B, C] \<and> 2 \<le> K \<longrightarrow>
       (\<exists>om. calc_overlap_matrix ?w = Inr om \<and> shape om = [K - 1, B, B] \<and> wf_ndarray om \<and>
             (\<forall>i<K - 1. \<forall>a<B. \<forall>b<B.
                at3 om i a b = cmod (\<Sum>c\<leftarrow>[0..<C]. at3 ?w i a c * cnj (at3 ?w (i + 1) b c))))"
    by blast
  from this [rule_format, of 2 1 1] obtain om where
    om: "calc_overlap_matrix ?w = Inr om" "shape om = [1, 1, 1]"
        "\<forall>i<1. \<forall>a<1. \<forall>b<1.
           at3 om i a b = cmod (\<Sum>c\<leftarrow>[0..<1]. at3 ?w i a c * cnj (at3 ?w (i + 1) b c))"
    by auto
  from om(3) have "at3 om 0 0 0 = 1" by (simp add: at3_def)
  with om(1,2) wf show ?thesis by blast
qed

end
